theory Spec2Isabelle
  imports Complex_Main "HOL-Library.AList"
begin

section \<open>Errors\<close>

text \<open>
  The sources signal failure by \<^verbatim>\<open>throw new Error(msg)\<close>; dereferencing a
  \<^verbatim>\<open>null\<close> reference raises a \<^verbatim>\<open>TypeError\<close>. Both are values here, and a
  function that can throw returns \<open>error + 'a\<close> with \<open>Inl\<close> the exception.
\<close>

datatype error = Error string | TypeError

section \<open>Rendezvous routing (src/hrwRouting.ts)\<close>





section \<open>The ordered store (class LRUCache)\<close>

text \<open>
  \<^verbatim>\<open>Node\<close> objects live in an object store \<open>heap\<close>: a list indexed by address, where
  \<^verbatim>\<open>new Node(...)\<close> appends. A reference is an address, \<^verbatim>\<open>null\<close> is \<open>None\<close>.
  The field \<^verbatim>\<open>value\<close> is called \<open>val\<close> and \<^verbatim>\<open>next\<close> is called \<open>nxt\<close>, since
  both words are reserved in Isabelle. A stored value (TypeScript \<^verbatim>\<open>any\<close>) is either a
  string, as the sentinels hold, or a payload of type \<open>'v\<close>.
\<close>

type_synonym addr = nat

datatype 'v any = Str string | Obj 'v

record 'v node =
  key :: string
  val :: "'v any"
  prev :: "addr option"
  nxt :: "addr option"

text \<open>
  The \<^verbatim>\<open>Map<string, Node>\<close> is an association list in insertion order:
  \<^verbatim>\<open>Map.get\<close> is \<open>map_of\<close>, \<^verbatim>\<open>Map.set\<close> is \<open>AList.update\<close>, \<^verbatim>\<open>Map.delete\<close> is
  \<open>AList.delete\<close> and \<^verbatim>\<open>Map.size\<close> is \<open>length\<close>. The capacity is an integer.
\<close>

record 'v LRUCache =
  cache :: "(string \<times> addr) list"
  capacity :: int
  head :: addr
  tail :: addr
  heap :: "'v node list"

definition LRUCache_new :: "int \<Rightarrow> error + 'v LRUCache" where
  "LRUCache_new cap =
     (if cap \<le> 0 then Inl (Error ''Capacity must be greater than 0'')
      else Inr \<lparr> cache = [], capacity = cap, head = 0, tail = 1,
                 heap = [\<lparr> key = '''', val = Str '''', prev = None, nxt = Some 1 \<rparr>,
                         \<lparr> key = '''', val = Str '''', prev = Some 0, nxt = None \<rparr>] \<rparr>)"

definition removeNode :: "addr \<Rightarrow> 'v LRUCache \<Rightarrow> error + 'v LRUCache" where
  "removeNode node s =
     (case prev (heap s ! node) of
        None \<Rightarrow> Inl TypeError
      | Some prevNode \<Rightarrow>
          (case nxt (heap s ! node) of
             None \<Rightarrow> Inl TypeError
           | Some nextNode \<Rightarrow>
               let h1 = (heap s)[prevNode := (heap s ! prevNode)\<lparr>nxt := Some nextNode\<rparr>];
                   h2 = h1[nextNode := (h1 ! nextNode)\<lparr>prev := Some prevNode\<rparr>]
               in Inr (s\<lparr>heap := h2\<rparr>)))"

definition addToTail :: "addr \<Rightarrow> 'v LRUCache \<Rightarrow> error + 'v LRUCache" where
  "addToTail node s =
     (case prev (heap s ! tail s) of
        None \<Rightarrow> Inl TypeError
      | Some prevNode \<Rightarrow>
          let h1 = (heap s)[prevNode := (heap s ! prevNode)\<lparr>nxt := Some node\<rparr>];
              h2 = h1[node := (h1 ! node)\<lparr>prev := Some prevNode\<rparr>];
              h3 = h2[node := (h2 ! node)\<lparr>nxt := Some (tail s)\<rparr>];
              h4 = h3[tail s := (h3 ! tail s)\<lparr>prev := Some node\<rparr>]
          in Inr (s\<lparr>heap := h4\<rparr>))"

definition removeHead :: "'v LRUCache \<Rightarrow> error + 'v LRUCache" where
  "removeHead s =
     (case nxt (heap s ! head s) of
        None \<Rightarrow> Inl TypeError
      | Some nodeToRemove \<Rightarrow>
          if nodeToRemove = tail s then Inr s
          else (case removeNode nodeToRemove s of
                  Inl e \<Rightarrow> Inl e
                | Inr s1 \<Rightarrow>
                    Inr (s1\<lparr>cache := AList.delete (key (heap s1 ! nodeToRemove)) (cache s1)\<rparr>)))"

text \<open>\<^verbatim>\<open>get\<close> returns the value (\<open>None\<close> is \<^verbatim>\<open>undefined\<close>) and the updated store.\<close>

definition LRUCache_get :: "string \<Rightarrow> 'v LRUCache \<Rightarrow> error + ('v any option \<times> 'v LRUCache)" where
  "LRUCache_get k s =
     (case map_of (cache s) k of
        None \<Rightarrow> Inr (None, s)
      | Some node \<Rightarrow>
          (case removeNode node s of
             Inl e \<Rightarrow> Inl e
           | Inr s1 \<Rightarrow>
               (case addToTail node s1 of
                  Inl e \<Rightarrow> Inl e
                | Inr s2 \<Rightarrow> Inr (Some (val (heap s2 ! node)), s2))))"

definition LRUCache_set :: "string \<Rightarrow> 'v any \<Rightarrow> 'v LRUCache \<Rightarrow> error + 'v LRUCache" where
  "LRUCache_set k v s =
     (case map_of (cache s) k of
        Some existingNode \<Rightarrow>
          (let s0 = s\<lparr>heap := (heap s)[existingNode := (heap s ! existingNode)\<lparr>val := v\<rparr>]\<rparr>
           in case removeNode existingNode s0 of
                Inl e \<Rightarrow> Inl e
              | Inr s1 \<Rightarrow> addToTail existingNode s1)
      | None \<Rightarrow>
          (let newNode = length (heap s);
               s0 = s\<lparr>heap := heap s @ [\<lparr> key = k, val = v, prev = None, nxt = None \<rparr>]\<rparr>
           in case (if int (length (cache s0)) \<ge> capacity s0 then removeHead s0 else Inr s0) of
                Inl e \<Rightarrow> Inl e
              | Inr s1 \<Rightarrow>
                  (case addToTail newNode s1 of
                     Inl e \<Rightarrow> Inl e
                   | Inr s2 \<Rightarrow> Inr (s2\<lparr>cache := AList.update k newNode (cache s2)\<rparr>))))"

subsection \<open>The list the store represents\<close>

text \<open>
  \<open>linked h p\<close>: along the addresses \<open>p\<close>, each node's \<^verbatim>\<open>next\<close> is its successor
  in \<open>p\<close> and each node's \<^verbatim>\<open>prev\<close> is its predecessor.
\<close>

fun linked :: "'v node list \<Rightarrow> addr list \<Rightarrow> bool" where
  "linked h (a # b # p) = (nxt (h ! a) = Some b \<and> prev (h ! b) = Some a \<and> linked h (b # p))"
| "linked h [a] = True"
| "linked h [] = True"

text \<open>
  \<open>chain h n a t\<close> follows \<^verbatim>\<open>next\<close> from \<open>a\<close> for at most \<open>n\<close> steps and stops at
  \<open>t\<close>. \<open>order s\<close> lists the nodes strictly between the sentinels, head side first,
  and \<open>entries s\<close> their keys and values: the least recently used entry is first, the
  most recently used last.
\<close>

fun chain :: "'v node list \<Rightarrow> nat \<Rightarrow> addr \<Rightarrow> addr \<Rightarrow> addr list" where
  "chain h 0 a t = []"
| "chain h (Suc n) a t =
     (if a = t then []
      else a # (case nxt (h ! a) of None \<Rightarrow> [] | Some b \<Rightarrow> chain h n b t))"

definition order :: "'v LRUCache \<Rightarrow> addr list" where
  "order s =
     (case nxt (heap s ! head s) of
        None \<Rightarrow> []
      | Some a \<Rightarrow> chain (heap s) (length (heap s)) a (tail s))"

definition entries :: "'v LRUCache \<Rightarrow> (string \<times> 'v any) list" where
  "entries s = map (\<lambda>a. (key (heap s ! a), val (heap s ! a))) (order s)"

text \<open>
  \<open>lru_rel s as\<close>: the store is well formed and \<open>as\<close> are its nodes in list order.
  The sentinels and \<open>as\<close> are distinct allocated nodes, doubly linked from head to
  tail; the keys of \<open>as\<close> are distinct; the map holds exactly the pairs (key, node) of
  \<open>as\<close>; the capacity is positive and not exceeded.
\<close>

definition lru_rel :: "'v LRUCache \<Rightarrow> addr list \<Rightarrow> bool" where
  "lru_rel s as =
     (linked (heap s) (head s # as @ [tail s]) \<and>
      distinct (head s # as @ [tail s]) \<and>
      list_all (\<lambda>a. a < length (heap s)) (head s # as @ [tail s]) \<and>
      distinct (map (\<lambda>a. key (heap s ! a)) as) \<and>
      set (cache s) = set (map (\<lambda>a. (key (heap s ! a), a)) as) \<and>
      distinct (map fst (cache s)) \<and>
      0 < capacity s \<and> int (length as) \<le> capacity s)"

definition lru_inv :: "'v LRUCache \<Rightarrow> bool" where
  "lru_inv s = lru_rel s (order s)"

text \<open>The three field assignments on a node of the heap, named for the proofs.\<close>

definition set_nxt :: "addr \<Rightarrow> addr option \<Rightarrow> 'v node list \<Rightarrow> 'v node list" where
  "set_nxt a x h = h[a := (h ! a)\<lparr>nxt := x\<rparr>]"

definition set_prev :: "addr \<Rightarrow> addr option \<Rightarrow> 'v node list \<Rightarrow> 'v node list" where
  "set_prev a x h = h[a := (h ! a)\<lparr>prev := x\<rparr>]"

definition set_val :: "addr \<Rightarrow> 'v any \<Rightarrow> 'v node list \<Rightarrow> 'v node list" where
  "set_val a v h = h[a := (h ! a)\<lparr>val := v\<rparr>]"

text \<open>
  \<open>same_data s s'\<close>: the two stores differ at most in the links of their nodes.
\<close>

definition same_data :: "'v LRUCache \<Rightarrow> 'v LRUCache \<Rightarrow> bool" where
  "same_data s s' =
     (length (heap s') = length (heap s) \<and>
      (\<forall>a. key (heap s' ! a) = key (heap s ! a) \<and> val (heap s' ! a) = val (heap s ! a)) \<and>
      cache s' = cache s \<and> capacity s' = capacity s \<and> head s' = head s \<and> tail s' = tail s)"

text \<open>A sequence of calls on one store, each either \<^verbatim>\<open>set(k, v)\<close> or \<^verbatim>\<open>get(k)\<close>.\<close>

datatype 'v op = OpSet string "'v any" | OpGet string

fun apply_op :: "'v op \<Rightarrow> 'v LRUCache \<Rightarrow> error + 'v LRUCache" where
  "apply_op (OpSet k v) s = LRUCache_set k v s"
| "apply_op (OpGet k) s = (case LRUCache_get k s of Inl e \<Rightarrow> Inl e | Inr (r, s') \<Rightarrow> Inr s')"

fun apply_ops :: "'v op list \<Rightarrow> 'v LRUCache \<Rightarrow> error + 'v LRUCache" where
  "apply_ops [] s = Inr s"
| "apply_ops (x # xs) s = (case apply_op x s of Inl e \<Rightarrow> Inl e | Inr s' \<Rightarrow> apply_ops xs s')"

text \<open>The calls \<open>ops\<close> made on a store freshly constructed with capacity \<open>c\<close>.\<close>

definition lru_run :: "int \<Rightarrow> 'v op list \<Rightarrow> error + 'v LRUCache" where
  "lru_run c ops = (case LRUCache_new c of Inl e \<Rightarrow> Inl e | Inr s \<Rightarrow> apply_ops ops s)"

text \<open>
  Two notions about a history of calls, for stating the properties: \<open>last_set k ops\<close> is
  the value of the last \<^verbatim>\<open>set(k, v)\<close> in \<open>ops\<close>, and \<open>age k ops\<close> is the number of
  calls made after the last call (\<^verbatim>\<open>get\<close> or \<^verbatim>\<open>set\<close>) with key \<open>k\<close>. The key
  least recently touched is the one of greatest age.
\<close>

fun op_key :: "'v op \<Rightarrow> string" where
  "op_key (OpSet k v) = k"
| "op_key (OpGet k) = k"

fun last_set :: "string \<Rightarrow> 'v op list \<Rightarrow> 'v any option" where
  "last_set k [] = None"
| "last_set k (OpSet k' v # ops) =
     (case last_set k ops of Some w \<Rightarrow> Some w | None \<Rightarrow> if k' = k then Some v else None)"
| "last_set k (OpGet k' # ops) = last_set k ops"

definition age :: "string \<Rightarrow> 'v op list \<Rightarrow> nat" where
  "age k ops = length (takeWhile (\<lambda>x. op_key x \<noteq> k) (rev ops))"

text \<open>
  \<open>hist_inv ops s\<close>: the store \<open>s\<close> is well formed, holds for each resident key the value
  last set in \<open>ops\<close>, and lists its keys by strictly decreasing age.
\<close>

definition hist_inv :: "'v op list \<Rightarrow> 'v LRUCache \<Rightarrow> bool" where
  "hist_inv ops s =
     (lru_inv s \<and>
      (\<forall>k v. map_of (entries s) k = Some v \<longrightarrow> last_set k ops = Some v) \<and>
      sorted_wrt (\<lambda>a b. age b ops < age a ops) (map fst (entries s)))"

section \<open>The fetch-through cache (class Cache)\<close>

text \<open>
  A \<^verbatim>\<open>CacheEntry\<close> is \<^verbatim>\<open>{ value, timestamp }\<close>; the field \<^verbatim>\<open>value\<close> is called
  \<open>cvalue\<close>. Times and durations are integers (milliseconds).
\<close>

record 'a CacheEntry =
  cvalue :: 'a
  timestamp :: int

text \<open>
  The injected \<^verbatim>\<open>fetcher\<close> returns a promise, as its type \<^verbatim>\<open>FetcherFunction\<close> says,
  and the promise settles later with a value or with a failure of an opaque type \<open>'e\<close>.
  Every run of the asynchronous block in \<^verbatim>\<open>get\<close> invokes the fetcher once and creates
  one \<^verbatim>\<open>fetchPromise\<close>; the store of these promises is the list \<open>fetchPromises\<close>, a
  promise is its index there, and the entry records the key the fetcher was invoked with.
  So the length of \<open>fetchPromises\<close> counts the fetcher invocations.
\<close>

datatype ('a, 'e) pstate = Pending | Fulfilled 'a | Rejected 'e

record ('a, 'e) fetchOp =
  fkey :: string
  fstate :: "('a, 'e) pstate"

record ('a, 'e) Cache =
  lruCache :: "'a CacheEntry LRUCache"
  maxDuration :: int
  inFlightRequests :: "(string \<times> nat) list"
  fetchPromises :: "('a, 'e) fetchOp list"

definition Cache_new :: "int \<Rightarrow> int \<Rightarrow> error + ('a, 'e) Cache" where
  "Cache_new cap maxDur =
     (case LRUCache_new cap of
        Inl e \<Rightarrow> Inl e
      | Inr l \<Rightarrow> Inr \<lparr> lruCache = l, maxDuration = maxDur, inFlightRequests = [],
                        fetchPromises = [] \<rparr>)"

text \<open>
  What the promise returned by \<^verbatim>\<open>get\<close> is: resolved with a cached value, or the
  promise of a fetch (\<^verbatim>\<open>return existingRequest\<close>, \<^verbatim>\<open>return fetchPromise\<close>), whose
  outcome the caller then observes.
\<close>

datatype 'a get_result = Resolved 'a | Awaits nat

text \<open>
  The second half of \<^verbatim>\<open>get\<close>, reached on a miss: join the request in flight for the
  key, or start a fetch and register its promise.
\<close>

definition joinOrFetch :: "string \<Rightarrow> ('a, 'e) Cache \<Rightarrow> 'a get_result \<times> ('a, 'e) Cache" where
  "joinOrFetch k s =
     (case map_of (inFlightRequests s) k of
        Some existingRequest \<Rightarrow> (Awaits existingRequest, s)
      | None \<Rightarrow>
          let fetchPromise = length (fetchPromises s)
          in (Awaits fetchPromise,
              s\<lparr>fetchPromises := fetchPromises s @ [\<lparr> fkey = k, fstate = Pending \<rparr>],
                inFlightRequests := AList.update k fetchPromise (inFlightRequests s)\<rparr>))"

text \<open>
  \<^verbatim>\<open>get(key)\<close> up to its return; \<open>now\<close> is what \<^verbatim>\<open>nowFn()\<close> returns during the
  call. A stored string has no \<^verbatim>\<open>timestamp\<close>, so its age is \<^verbatim>\<open>NaN\<close> and the
  comparison fails.
\<close>

definition Cache_get :: "string \<Rightarrow> int \<Rightarrow> ('a, 'e) Cache \<Rightarrow> error + ('a get_result \<times> ('a, 'e) Cache)" where
  "Cache_get k now s =
     (case LRUCache_get k (lruCache s) of
        Inl e \<Rightarrow> Inl e
      | Inr (entry, l) \<Rightarrow>
          let s1 = s\<lparr>lruCache := l\<rparr>
          in (case entry of
                Some (Obj e) \<Rightarrow>
                  if now - timestamp e < maxDuration s1 then Inr (Resolved (cvalue e), s1)
                  else Inr (joinOrFetch k s1)
              | _ \<Rightarrow> Inr (joinOrFetch k s1)))"

text \<open>
  The rest of the asynchronous block, run when the fetcher's promise \<open>p\<close> settles with
  \<open>outcome\<close> (\<open>Inl\<close> a failure, \<open>Inr\<close> a value): on success the value is stored with the
  time \<open>now\<close>; in both cases the \<^verbatim>\<open>finally\<close> block deletes the key from
  \<^verbatim>\<open>inFlightRequests\<close> and the promise settles with the same outcome. A promise
  settles once: settling a promise that is not pending does nothing.
\<close>

definition Cache_settle :: "nat \<Rightarrow> 'e + 'a \<Rightarrow> int \<Rightarrow> ('a, 'e) Cache \<Rightarrow> error + ('a, 'e) Cache" where
  "Cache_settle p outcome now s =
     (if p < length (fetchPromises s) \<and> fstate (fetchPromises s ! p) = Pending then
        let k = fkey (fetchPromises s ! p)
        in (case outcome of
              Inr v \<Rightarrow>
                (case LRUCache_set k (Obj \<lparr> cvalue = v, timestamp = now \<rparr>) (lruCache s) of
                   Inl e \<Rightarrow> Inl e
                 | Inr l \<Rightarrow>
                     Inr (s\<lparr>lruCache := l,
                            fetchPromises := (fetchPromises s)[p := \<lparr> fkey = k, fstate = Fulfilled v \<rparr>],
                            inFlightRequests := AList.delete k (inFlightRequests s)\<rparr>))
            | Inl err \<Rightarrow>
                Inr (s\<lparr>fetchPromises := (fetchPromises s)[p := \<lparr> fkey = k, fstate = Rejected err \<rparr>],
                       inFlightRequests := AList.delete k (inFlightRequests s)\<rparr>))
      else Inr s)"

text \<open>
  The cache runs on one thread: its executions are sequences of events, each either a
  call of \<^verbatim>\<open>get\<close> or the settlement of a fetch, in any order.
\<close>

datatype ('a, 'e) event = Get string int | Settle nat "'e + 'a" int

fun step :: "('a, 'e) event \<Rightarrow> ('a, 'e) Cache \<Rightarrow> error + ('a get_result option \<times> ('a, 'e) Cache)" where
  "step (Get k now) s =
     (case Cache_get k now s of Inl e \<Rightarrow> Inl e | Inr (r, s') \<Rightarrow> Inr (Some r, s'))"
| "step (Settle p outcome now) s =
     (case Cache_settle p outcome now s of Inl e \<Rightarrow> Inl e | Inr s' \<Rightarrow> Inr (None, s'))"

fun run :: "('a, 'e) event list \<Rightarrow> ('a, 'e) Cache \<Rightarrow> error + ('a get_result option list \<times> ('a, 'e) Cache)" where
  "run [] s = Inr ([], s)"
| "run (ev # evs) s =
     (case step ev s of
        Inl e \<Rightarrow> Inl e
      | Inr (r, s') \<Rightarrow>
          (case run evs s' of Inl e \<Rightarrow> Inl e | Inr (rs, s'') \<Rightarrow> Inr (r # rs, s'')))"

text \<open>The events \<open>evs\<close> on a cache freshly constructed with capacity \<open>c\<close> and TTL \<open>d\<close>.\<close>

definition cache_run :: "int \<Rightarrow> int \<Rightarrow> ('a, 'e) event list \<Rightarrow> error + ('a get_result option list \<times> ('a, 'e) Cache)" where
  "cache_run c d evs = (case Cache_new c d of Inl e \<Rightarrow> Inl e | Inr s \<Rightarrow> run evs s)"

text \<open>
  For stating the properties: \<open>stored s k\<close> is the entry the store holds for \<open>k\<close>, if
  any; \<open>is_fresh s k now\<close> is the test \<^verbatim>\<open>get\<close> makes on it; \<open>pending s k p\<close> says that
  promise \<open>p\<close> is a fetch for \<open>k\<close> that has not settled; \<open>fetchLog s\<close> lists the keys the
  fetcher has been invoked with, in order; \<open>settles p ev\<close> says that the event is the
  settlement of promise \<open>p\<close>; \<open>settled outcome\<close> is the state of a promise that settled with
  \<open>outcome\<close>; \<open>recency s\<close> lists the resident keys, least recently used first.
\<close>

definition stored :: "('a, 'e) Cache \<Rightarrow> string \<Rightarrow> 'a CacheEntry any option" where
  "stored s k = map_of (entries (lruCache s)) k"

definition is_fresh :: "('a, 'e) Cache \<Rightarrow> string \<Rightarrow> int \<Rightarrow> bool" where
  "is_fresh s k now =
     (case stored s k of
        Some (Obj e) \<Rightarrow> now - timestamp e < maxDuration s
      | _ \<Rightarrow> False)"

definition pending :: "('a, 'e) Cache \<Rightarrow> string \<Rightarrow> nat \<Rightarrow> bool" where
  "pending s k p =
     (p < length (fetchPromises s) \<and> fkey (fetchPromises s ! p) = k \<and>
      fstate (fetchPromises s ! p) = Pending)"

definition fetchLog :: "('a, 'e) Cache \<Rightarrow> string list" where
  "fetchLog s = map fkey (fetchPromises s)"

fun settles :: "nat \<Rightarrow> ('a, 'e) event \<Rightarrow> bool" where
  "settles p (Settle q outcome now) = (q = p)"
| "settles p (Get k now) = False"

fun settled :: "'e + 'a \<Rightarrow> ('a, 'e) pstate" where
  "settled (Inr v) = Fulfilled v"
| "settled (Inl err) = Rejected err"

definition recency :: "('a, 'e) Cache \<Rightarrow> string list" where
  "recency s = map fst (entries (lruCache s))"

text \<open>
  \<open>cache_inv s\<close>: the store is well formed, and \<^verbatim>\<open>inFlightRequests\<close> maps a key to a
  promise exactly when that promise is a pending fetch for the key.
\<close>

definition cache_inv :: "('a, 'e) Cache \<Rightarrow> bool" where
  "cache_inv s =
     (lru_inv (lruCache s) \<and>
      distinct (map fst (inFlightRequests s)) \<and>
      (\<forall>k p. (map_of (inFlightRequests s) k = Some p) = pending s k p))"

text \<open>
  \<open>touched s k l\<close>: \<open>l\<close> is the store after \<^verbatim>\<open>this.lruCache.get(k)\<close> in state \<open>s\<close>: the
  call returns the stored entry, and an entry found moves to the most recently used end.
\<close>

definition touched :: "('a, 'e) Cache \<Rightarrow> string \<Rightarrow> 'a CacheEntry LRUCache \<Rightarrow> bool" where
  "touched s k l =
     (LRUCache_get k (lruCache s) = Inr (stored s k, l) \<and> lru_inv l \<and>
      capacity l = capacity (lruCache s) \<and>
      entries l = (case stored s k of
                     None \<Rightarrow> entries (lruCache s)
                   | Some v \<Rightarrow> filter (\<lambda>e. fst e \<noteq> k) (entries (lruCache s)) @ [(k, v)]))"

fun final_state :: "error + ('r \<times> ('a, 'e) Cache) \<Rightarrow> ('a, 'e) Cache option" where
  "final_state (Inr (rs, s)) = Some s"
| "final_state (Inl e) = None"

section \<open>Properties of the router\<close>









section \<open>Construction\<close>

text \<open>
  Claim C9. A capacity \<open>cap \<le> 0\<close> makes the constructor of the store throw, and with it
  the constructor of the cache, which builds the store first; no later operation is
  involved. For every \<open>cap > 0\<close> both constructors return an instance.
\<close>

theorem construction_checks_capacity:
  "(cap \<le> 0 \<longrightarrow>
      (LRUCache_new cap :: error + 'v LRUCache) = Inl (Error ''Capacity must be greater than 0'') \<and>
      (Cache_new cap d :: error + ('a, 'e) Cache) = Inl (Error ''Capacity must be greater than 0'')) \<and>
   (0 < cap \<longrightarrow>
      (\<exists>s. (LRUCache_new cap :: error + 'v LRUCache) = Inr s) \<and>
      (\<exists>c. (Cache_new cap d :: error + ('a, 'e) Cache) = Inr c))"
  by (simp add: LRUCache_new_def Cache_new_def)

theorem construction_checks_capacity_witness:
  "(0::int) \<le> 0 \<and> (-5::int) \<le> 0 \<and> (0::int) < 50 \<and>
   (LRUCache_new 0 :: error + 'v LRUCache) = Inl (Error ''Capacity must be greater than 0'') \<and>
   (Cache_new (-5) 60000 :: error + ('a, 'e) Cache) = Inl (Error ''Capacity must be greater than 0'') \<and>
   (\<exists>s. (LRUCache_new 50 :: error + 'v LRUCache) = Inr s) \<and>
   (\<exists>c. (Cache_new 50 60000 :: error + ('a, 'e) Cache) = Inr c)"
  using construction_checks_capacity[of 0 60000, where 'v='v and 'a='a and 'e='e]
    construction_checks_capacity[of "-5" 60000, where 'v='v and 'a='a and 'e='e]
    construction_checks_capacity[of 50 60000, where 'v='v and 'a='a and 'e='e]
  by simp

section \<open>The store as a doubly linked list\<close>

subsection \<open>Heap updates and links\<close>

lemma length_set_nxt [simp]: "length (set_nxt a x h) = length h"
  by (simp add: set_nxt_def)
lemma length_set_prev [simp]: "length (set_prev a x h) = length h"
  by (simp add: set_prev_def)
lemma length_set_val [simp]: "length (set_val a x h) = length h"
  by (simp add: set_val_def)

lemma nxt_set_nxt [simp]:
  "nxt (set_nxt a x h ! b) = (if b = a \<and> a < length h then x else nxt (h ! b))"
  by (cases "a < length h") (auto simp: set_nxt_def nth_list_update list_update_beyond)
lemma prev_set_nxt [simp]: "prev (set_nxt a x h ! b) = prev (h ! b)"
  by (cases "a < length h") (auto simp: set_nxt_def nth_list_update list_update_beyond)
lemma key_set_nxt [simp]: "key (set_nxt a x h ! b) = key (h ! b)"
  by (cases "a < length h") (auto simp: set_nxt_def nth_list_update list_update_beyond)
lemma val_set_nxt [simp]: "val (set_nxt a x h ! b) = val (h ! b)"
  by (cases "a < length h") (auto simp: set_nxt_def nth_list_update list_update_beyond)

lemma prev_set_prev [simp]:
  "prev (set_prev a x h ! b) = (if b = a \<and> a < length h then x else prev (h ! b))"
  by (cases "a < length h") (auto simp: set_prev_def nth_list_update list_update_beyond)
lemma nxt_set_prev [simp]: "nxt (set_prev a x h ! b) = nxt (h ! b)"
  by (cases "a < length h") (auto simp: set_prev_def nth_list_update list_update_beyond)
lemma key_set_prev [simp]: "key (set_prev a x h ! b) = key (h ! b)"
  by (cases "a < length h") (auto simp: set_prev_def nth_list_update list_update_beyond)
lemma val_set_prev [simp]: "val (set_prev a x h ! b) = val (h ! b)"
  by (cases "a < length h") (auto simp: set_prev_def nth_list_update list_update_beyond)

lemma val_set_val [simp]:
  "val (set_val a x h ! b) = (if b = a \<and> a < length h then x else val (h ! b))"
  by (cases "a < length h") (auto simp: set_val_def nth_list_update list_update_beyond)
lemma nxt_set_val [simp]: "nxt (set_val a x h ! b) = nxt (h ! b)"
  by (cases "a < length h") (auto simp: set_val_def nth_list_update list_update_beyond)
lemma prev_set_val [simp]: "prev (set_val a x h ! b) = prev (h ! b)"
  by (cases "a < length h") (auto simp: set_val_def nth_list_update list_update_beyond)
lemma key_set_val [simp]: "key (set_val a x h ! b) = key (h ! b)"
  by (cases "a < length h") (auto simp: set_val_def nth_list_update list_update_beyond)

lemma linked_cong:
  "(\<And>a. a \<in> set p \<Longrightarrow> nxt (h' ! a) = nxt (h ! a) \<and> prev (h' ! a) = prev (h ! a)) \<Longrightarrow>
   linked h' p = linked h p"
  by (induction h p rule: linked.induct) auto

lemma linked_set_nxt: "a \<notin> set (butlast p) \<Longrightarrow> linked (set_nxt a x h) p = linked h p"
  by (induction h p rule: linked.induct) auto

lemma linked_set_prev: "a \<notin> set (tl p) \<Longrightarrow> linked (set_prev a x h) p = linked h p"
  by (induction h p rule: linked.induct) auto

lemma linked_set_val [simp]: "linked (set_val a x h) p = linked h p"
  by (induction h p rule: linked.induct) auto

lemma linked_append:
  "linked h (p @ q) =
     (linked h p \<and> linked h q \<and>
      (p \<noteq> [] \<and> q \<noteq> [] \<longrightarrow> nxt (h ! last p) = Some (hd q) \<and> prev (h ! hd q) = Some (last p)))"
proof (induction h p rule: linked.induct)
  case (1 h a b p)
  then show ?case by auto
next
  case (2 h a)
  then show ?case by (cases q) auto
next
  case (3 h)
  then show ?case by simp
qed

lemma linked_heap_append:
  "list_all (\<lambda>a. a < length h) p \<Longrightarrow> linked (h @ h') p = linked h p"
  by (induction h p rule: linked.induct) (auto simp: nth_append)

lemma chain_linked:
  "linked h (as @ [t]) \<Longrightarrow> t \<notin> set as \<Longrightarrow> length as < n \<Longrightarrow> chain h n (hd (as @ [t])) t = as"
proof (induction as arbitrary: n)
  case Nil
  then show ?case by (cases n) auto
next
  case (Cons a as)
  then obtain m where n: "n = Suc m" by (cases n) auto
  from Cons.prems have nx: "nxt (h ! a) = Some (hd (as @ [t]))"
    by (cases as) auto
  from Cons.prems have l: "linked h (as @ [t])"
    by (cases as) auto
  from Cons.IH[OF l, of m] Cons.prems n have "chain h m (hd (as @ [t])) t = as" by auto
  with Cons.prems nx n show ?case by auto
qed

lemma distinct_bounded_length:
  "distinct p \<Longrightarrow> list_all (\<lambda>a. a < (n::nat)) p \<Longrightarrow> length p \<le> n"
proof -
  assume d: "distinct p" and b: "list_all (\<lambda>a. a < n) p"
  then have "set p \<subseteq> {..<n}" by (auto simp: list_all_iff)
  then have "card (set p) \<le> card {..<n}" by (intro card_mono) auto
  with d show ?thesis by (simp add: distinct_card)
qed

lemma lru_rel_order: "lru_rel s as \<Longrightarrow> order s = as"
proof -
  assume r: "lru_rel s as"
  let ?h = "heap s"
  from r have l: "linked ?h (head s # as @ [tail s])"
    and d: "distinct (head s # as @ [tail s])"
    and b: "list_all (\<lambda>a. a < length ?h) (head s # as @ [tail s])"
    by (auto simp: lru_rel_def)
  from distinct_bounded_length[OF d b] have len: "length as < length ?h" by simp
  from l have nx: "nxt (?h ! head s) = Some (hd (as @ [tail s]))" by (cases as) auto
  from l have l': "linked ?h (as @ [tail s])" by (cases as) auto
  from d have "tail s \<notin> set as" by auto
  from chain_linked[OF l' this len] nx show ?thesis by (simp add: order_def)
qed

lemma lru_inv_iff: "lru_inv s = (\<exists>as. lru_rel s as)"
  using lru_rel_order by (auto simp: lru_inv_def)

subsection \<open>Unlinking and appending a node\<close>

lemma removeNode_alt:
  "removeNode x s =
     (case prev (heap s ! x) of
        None \<Rightarrow> Inl TypeError
      | Some a \<Rightarrow>
          (case nxt (heap s ! x) of
             None \<Rightarrow> Inl TypeError
           | Some b \<Rightarrow> Inr (s\<lparr>heap := set_prev b (Some a) (set_nxt a (Some b) (heap s))\<rparr>)))"
  by (simp add: removeNode_def set_prev_def set_nxt_def Let_def split: option.splits)

lemma addToTail_alt:
  "addToTail x s =
     (case prev (heap s ! tail s) of
        None \<Rightarrow> Inl TypeError
      | Some a \<Rightarrow>
          Inr (s\<lparr>heap := set_prev (tail s) (Some x) (set_nxt x (Some (tail s))
                 (set_prev x (Some a) (set_nxt a (Some x) (heap s))))\<rparr>))"
  by (simp add: addToTail_def set_prev_def set_nxt_def Let_def split: option.splits)

lemma in_set_tl: "x \<in> set (tl p) \<Longrightarrow> x \<in> set p"
  by (cases p) auto

lemma last_notin_butlast: "distinct p \<Longrightarrow> p \<noteq> [] \<Longrightarrow> last p \<notin> set (butlast p)"
  by (induction p) (auto dest: in_set_butlastD)

lemma same_data_refl [simp]: "same_data s s"
  by (simp add: same_data_def)

lemma same_data_trans: "same_data s s' \<Longrightarrow> same_data s' s'' \<Longrightarrow> same_data s s''"
  by (simp add: same_data_def)

lemma removeNode_ok:
  assumes l: "linked (heap s) (p1 @ x # p2)"
    and d: "distinct (p1 @ x # p2)"
    and b: "list_all (\<lambda>a. a < length (heap s)) (p1 @ x # p2)"
    and ne: "p1 \<noteq> []" "p2 \<noteq> []"
  shows "\<exists>s'. removeNode x s = Inr s' \<and> linked (heap s') (p1 @ p2) \<and> same_data s s'"
proof -
  let ?h = "heap s"
  let ?a = "last p1" and ?b = "hd p2"
  from l ne have l1: "linked ?h p1" and l2: "linked ?h p2"
    and pa: "prev (?h ! x) = Some ?a" and nb: "nxt (?h ! x) = Some ?b"
    by (cases p2; auto simp: linked_append)+
  let ?h' = "set_prev ?b (Some ?a) (set_nxt ?a (Some ?b) ?h)"
  have r: "removeNode x s = Inr (s\<lparr>heap := ?h'\<rparr>)"
    by (simp add: removeNode_alt pa nb)
  from ne have ain: "?a \<in> set p1" and bin: "?b \<in> set p2" by auto
  from b ain bin have ab: "?a < length ?h" "?b < length ?h" by (auto simp: list_all_iff)
  from d ain bin have neq: "?a \<noteq> ?b" by auto
  from d ne have a1: "?a \<notin> set (butlast p1)"
    by (intro last_notin_butlast) auto
  from d bin have a2: "?a \<notin> set (butlast p2)" using ain by (auto dest: in_set_butlastD)
  from d ain have b1: "?b \<notin> set (tl p1)" using bin by (auto dest: in_set_tl)
  from d ne have b2: "?b \<notin> set (tl p2)" by (cases p2) auto
  have "linked ?h' p1" using l1 a1 b1 by (simp add: linked_set_prev linked_set_nxt)
  moreover have "linked ?h' p2" using l2 a2 b2 by (simp add: linked_set_prev linked_set_nxt)
  moreover have "nxt (?h' ! ?a) = Some ?b" "prev (?h' ! ?b) = Some ?a" using ab by auto
  ultimately have "linked ?h' (p1 @ p2)" by (simp add: linked_append)
  with r show ?thesis by (auto simp: same_data_def)
qed

lemma addToTail_ok:
  assumes l: "linked (heap s) (p @ [tail s])"
    and d: "distinct (p @ [tail s])"
    and b: "list_all (\<lambda>a. a < length (heap s)) (p @ [tail s])"
    and ne: "p \<noteq> []"
    and x: "x \<notin> set (p @ [tail s])" "x < length (heap s)"
  shows "\<exists>s'. addToTail x s = Inr s' \<and> linked (heap s') (p @ [x, tail s]) \<and> same_data s s'"
proof -
  let ?h = "heap s" and ?t = "tail s"
  let ?a = "last p"
  from l ne have l1: "linked ?h p" and pa: "prev (?h ! ?t) = Some ?a"
    by (auto simp: linked_append)
  let ?h' = "set_prev ?t (Some x) (set_nxt x (Some ?t) (set_prev x (Some ?a) (set_nxt ?a (Some x) ?h)))"
  have r: "addToTail x s = Inr (s\<lparr>heap := ?h'\<rparr>)"
    by (simp add: addToTail_alt pa)
  from ne have ain: "?a \<in> set p" by auto
  from b ain have ab: "?a < length ?h" "?t < length ?h" by (auto simp: list_all_iff)
  from d ne have a1: "?a \<notin> set (butlast p)"
    by (intro last_notin_butlast) auto
  from x have x1: "x \<notin> set (butlast p)" "x \<notin> set (tl p)" "x \<noteq> ?t" "x \<noteq> ?a"
    using ain by (auto dest: in_set_butlastD in_set_tl)
  from d have t1: "?t \<notin> set (tl p)" by (auto dest: in_set_tl)
  have "linked ?h' p" using l1 a1 x1 t1 by (simp add: linked_set_prev linked_set_nxt)
  moreover have "nxt (?h' ! ?a) = Some x" "prev (?h' ! x) = Some ?a"
    "nxt (?h' ! x) = Some ?t" "prev (?h' ! ?t) = Some x"
    using ab x x1 by auto
  ultimately have "linked ?h' (p @ [x, ?t])" using ne by (simp add: linked_append)
  with r show ?thesis by (auto simp: same_data_def)
qed

subsection \<open>The operations on a well-formed store\<close>

lemma lru_rel_map_of:
  assumes "lru_rel s as"
  shows "(map_of (cache s) k = Some x) = (x \<in> set as \<and> key (heap s ! x) = k)"
proof -
  from assms have d: "distinct (map fst (cache s))"
    and c: "set (cache s) = set (map (\<lambda>a. (key (heap s ! a), a)) as)"
    by (auto simp: lru_rel_def)
  have "(map_of (cache s) k = Some x) = ((k, x) \<in> set (cache s))"
    using d by auto
  also have "\<dots> = (x \<in> set as \<and> key (heap s ! x) = k)"
    unfolding c by auto
  finally show ?thesis .
qed

lemma lru_rel_map_of_None:
  assumes "lru_rel s as"
  shows "(map_of (cache s) k = None) = (k \<notin> set (map (\<lambda>a. key (heap s ! a)) as))"
proof -
  from assms have c: "set (cache s) = set (map (\<lambda>a. (key (heap s ! a), a)) as)"
    by (auto simp: lru_rel_def)
  have "(map_of (cache s) k = None) = (k \<notin> fst ` set (cache s))"
    by (simp add: map_of_eq_None_iff)
  also have "\<dots> = (k \<notin> set (map (\<lambda>a. key (heap s ! a)) as))"
    unfolding c by (auto simp: image_iff)
  finally show ?thesis .
qed

lemma lru_rel_length:
  assumes "lru_rel s as"
  shows "length (cache s) = length as"
proof -
  let ?f = "\<lambda>a. (key (heap s ! a), a)"
  from assms have d: "distinct (map fst (cache s))"
    and c: "set (cache s) = set (map ?f as)"
    and da: "distinct as"
    by (auto simp: lru_rel_def)
  from d have dc: "distinct (cache s)" by (simp add: distinct_map)
  have inj: "inj_on ?f (set as)" by (auto simp: inj_on_def)
  have "length (cache s) = card (set (cache s))" using dc by (simp add: distinct_card)
  also have "\<dots> = card (?f ` set as)" using c by simp
  also have "\<dots> = card (set as)" using inj by (rule card_image)
  also have "\<dots> = length as" using da by (simp add: distinct_card)
  finally show ?thesis .
qed

lemma lru_rel_entries:
  "lru_rel s as \<Longrightarrow> entries s = map (\<lambda>a. (key (heap s ! a), val (heap s ! a))) as"
  by (simp add: entries_def lru_rel_order)

lemma LRUCache_get_miss:
  "map_of (cache s) k = None \<Longrightarrow> LRUCache_get k s = Inr (None, s)"
  by (simp add: LRUCache_get_def)

lemma touch_rel:
  assumes r: "lru_rel s as" and x: "x \<in> set as"
  shows "\<exists>s1 s2. removeNode x s = Inr s1 \<and> addToTail x s1 = Inr s2 \<and>
           lru_rel s2 (remove1 x as @ [x]) \<and> same_data s s2"
proof -
  let ?h = "heap s"
  from r have l: "linked ?h (head s # as @ [tail s])"
    and d: "distinct (head s # as @ [tail s])"
    and b: "list_all (\<lambda>a. a < length ?h) (head s # as @ [tail s])"
    and dk: "distinct (map (\<lambda>a. key (?h ! a)) as)"
    and c: "set (cache s) = set (map (\<lambda>a. (key (?h ! a), a)) as)"
    and dc: "distinct (map fst (cache s))"
    and cap: "0 < capacity s" "int (length as) \<le> capacity s"
    by (auto simp: lru_rel_def)
  from x obtain as1 as2 where as: "as = as1 @ x # as2" by (auto dest: split_list)
  from d as have rm: "remove1 x as = as1 @ as2" by (simp add: remove1_append)
  have l': "linked ?h ((head s # as1) @ x # (as2 @ [tail s]))" using l as by simp
  have d': "distinct ((head s # as1) @ x # (as2 @ [tail s]))" using d as by simp
  have b': "list_all (\<lambda>a. a < length ?h) ((head s # as1) @ x # (as2 @ [tail s]))"
    using b as by simp
  from removeNode_ok[OF l' d' b'] obtain s1 where
    s1: "removeNode x s = Inr s1" and l1: "linked (heap s1) ((head s # as1) @ (as2 @ [tail s]))"
    and sd1: "same_data s s1" by auto
  from sd1 have eq1: "tail s1 = tail s" "head s1 = head s" "length (heap s1) = length ?h"
    by (auto simp: same_data_def)
  have l1': "linked (heap s1) ((head s # as1 @ as2) @ [tail s1])" using l1 eq1 by simp
  have d1: "distinct ((head s # as1 @ as2) @ [tail s1])" using d as eq1 by auto
  have b1: "list_all (\<lambda>a. a < length (heap s1)) ((head s # as1 @ as2) @ [tail s1])"
    using b as eq1 by simp
  have x1: "x \<notin> set ((head s # as1 @ as2) @ [tail s1])" using d as eq1 by auto
  have x2: "x < length (heap s1)" using b as eq1 by simp
  from addToTail_ok[OF l1' d1 b1 _ x1 x2] obtain s2 where
    s2: "addToTail x s1 = Inr s2" and l2: "linked (heap s2) ((head s # as1 @ as2) @ [x, tail s1])"
    and sd2: "same_data s1 s2" by auto
  from same_data_trans[OF sd1 sd2] have sd: "same_data s s2" .
  then have eq2: "tail s2 = tail s" "head s2 = head s" "length (heap s2) = length ?h"
    "cache s2 = cache s" "capacity s2 = capacity s"
    "\<And>a. key (heap s2 ! a) = key (?h ! a)"
    by (auto simp: same_data_def)
  have "lru_rel s2 (as1 @ as2 @ [x])"
    unfolding lru_rel_def
  proof (intro conjI)
    show "linked (heap s2) (head s2 # (as1 @ as2 @ [x]) @ [tail s2])" using l2 eq1 eq2 by simp
    show "distinct (head s2 # (as1 @ as2 @ [x]) @ [tail s2])" using d as eq2 by auto
    show "list_all (\<lambda>a. a < length (heap s2)) (head s2 # (as1 @ as2 @ [x]) @ [tail s2])"
      using b as eq2 by simp
    show "distinct (map (\<lambda>a. key (heap s2 ! a)) (as1 @ as2 @ [x]))"
      using dk as eq2 by auto
    show "set (cache s2) = set (map (\<lambda>a. (key (heap s2 ! a), a)) (as1 @ as2 @ [x]))"
      using c as eq2 by auto
    show "distinct (map fst (cache s2))" using dc eq2 by simp
    show "0 < capacity s2" using cap eq2 by simp
    show "int (length (as1 @ as2 @ [x])) \<le> capacity s2" using cap as eq2 by simp
  qed
  with s1 s2 sd rm show ?thesis by auto
qed

lemma LRUCache_get_hit:
  assumes r: "lru_rel s as" and m: "map_of (cache s) k = Some x"
  shows "\<exists>s'. LRUCache_get k s = Inr (Some (val (heap s ! x)), s') \<and>
           lru_rel s' (remove1 x as @ [x]) \<and> same_data s s'"
proof -
  from m r have x: "x \<in> set as" by (simp add: lru_rel_map_of)
  from touch_rel[OF r x] obtain s1 s2 where
    "removeNode x s = Inr s1" "addToTail x s1 = Inr s2"
    "lru_rel s2 (remove1 x as @ [x])" "same_data s s2" by auto
  then show ?thesis using m by (auto simp: LRUCache_get_def same_data_def)
qed

lemma update_fresh: "k \<notin> fst ` set al \<Longrightarrow> AList.update k v al = al @ [(k, v)]"
  by (induction al) auto

lemma set_delete: "set (AList.delete k al) = {p \<in> set al. fst p \<noteq> k}"
  by (auto simp: AList.delete_eq)

lemma lru_rel_set_val:
  assumes r: "lru_rel s as"
  shows "lru_rel (s\<lparr>heap := set_val x v (heap s)\<rparr>) as"
  using r by (simp add: lru_rel_def)

lemma LRUCache_set_existing:
  assumes r: "lru_rel s as" and m: "map_of (cache s) k = Some x"
  shows "\<exists>s'. LRUCache_set k v s = Inr s' \<and> lru_rel s' (remove1 x as @ [x]) \<and>
           same_data (s\<lparr>heap := set_val x v (heap s)\<rparr>) s'"
proof -
  let ?s0 = "s\<lparr>heap := set_val x v (heap s)\<rparr>"
  from m r have x: "x \<in> set as" by (simp add: lru_rel_map_of)
  from touch_rel[OF lru_rel_set_val[OF r] x, of x v] obtain s1 s2 where
    "removeNode x ?s0 = Inr s1" "addToTail x s1 = Inr s2"
    "lru_rel s2 (remove1 x as @ [x])" "same_data ?s0 s2" by auto
  then show ?thesis using m by (auto simp: LRUCache_set_def set_val_def)
qed

lemma lru_rel_alloc:
  assumes r: "lru_rel s as"
  shows "lru_rel (s\<lparr>heap := heap s @ [nd]\<rparr>) as"
proof -
  from r have b: "list_all (\<lambda>a. a < length (heap s)) (head s # as @ [tail s])"
    by (simp add: lru_rel_def)
  then have lt: "\<And>a. a \<in> set as \<Longrightarrow> a < length (heap s)" by (auto simp: list_all_iff)
  have k: "map (\<lambda>a. key ((heap s @ [nd]) ! a)) as = map (\<lambda>a. key (heap s ! a)) as"
    using lt by (auto simp: nth_append)
  have c: "map (\<lambda>a. (key ((heap s @ [nd]) ! a), a)) as = map (\<lambda>a. (key (heap s ! a), a)) as"
    using lt by (auto simp: nth_append)
  have b': "list_all (\<lambda>a. a < Suc (length (heap s))) (head s # as @ [tail s])"
    using b by (auto simp: list_all_iff)
  show ?thesis using r b b' linked_heap_append[OF b, of "[nd]"] 
    unfolding lru_rel_def by (simp add: k c)
qed

lemma removeHead_rel:
  assumes r: "lru_rel s (y # as)"
  shows "\<exists>s'. removeHead s = Inr s' \<and> lru_rel s' as \<and>
           length (heap s') = length (heap s) \<and>
           (\<forall>a. key (heap s' ! a) = key (heap s ! a) \<and> val (heap s' ! a) = val (heap s ! a)) \<and>
           capacity s' = capacity s \<and> head s' = head s \<and> tail s' = tail s"
proof -
  let ?h = "heap s"
  from r have l: "linked ?h (head s # (y # as) @ [tail s])"
    and d: "distinct (head s # (y # as) @ [tail s])"
    and b: "list_all (\<lambda>a. a < length ?h) (head s # (y # as) @ [tail s])"
    and dk: "distinct (map (\<lambda>a. key (?h ! a)) (y # as))"
    and c: "set (cache s) = set (map (\<lambda>a. (key (?h ! a), a)) (y # as))"
    and dc: "distinct (map fst (cache s))"
    and cap: "0 < capacity s" "int (length (y # as)) \<le> capacity s"
    by (auto simp: lru_rel_def)
  from l have nx: "nxt (?h ! head s) = Some y" by simp
  from d have yt: "y \<noteq> tail s" by auto
  have l': "linked ?h ([head s] @ y # (as @ [tail s]))" using l by simp
  have d': "distinct ([head s] @ y # (as @ [tail s]))" using d by simp
  have b': "list_all (\<lambda>a. a < length ?h) ([head s] @ y # (as @ [tail s]))" using b by simp
  from removeNode_ok[OF l' d' b'] obtain s1 where
    s1: "removeNode y s = Inr s1" and l1: "linked (heap s1) ([head s] @ (as @ [tail s]))"
    and sd1: "same_data s s1" by auto
  let ?s' = "s1\<lparr>cache := AList.delete (key (heap s1 ! y)) (cache s1)\<rparr>"
  have rh: "removeHead s = Inr ?s'" using nx yt s1 by (simp add: removeHead_def)
  from sd1 have eq: "tail s1 = tail s" "head s1 = head s" "length (heap s1) = length ?h"
    "cache s1 = cache s" "capacity s1 = capacity s"
    "\<And>a. key (heap s1 ! a) = key (?h ! a)" "\<And>a. val (heap s1 ! a) = val (?h ! a)"
    by (auto simp: same_data_def)
  have "lru_rel ?s' as"
    unfolding lru_rel_def
  proof (intro conjI)
    show "linked (heap ?s') (head ?s' # as @ [tail ?s'])" using l1 eq by simp
    show "distinct (head ?s' # as @ [tail ?s'])" using d eq by auto
    show "list_all (\<lambda>a. a < length (heap ?s')) (head ?s' # as @ [tail ?s'])" using b eq by simp
    show "distinct (map (\<lambda>a. key (heap ?s' ! a)) as)" using dk eq by simp
    have "\<forall>a\<in>set as. key (?h ! a) \<noteq> key (?h ! y)" using dk by (auto simp: image_iff)
    then show "set (cache ?s') = set (map (\<lambda>a. (key (heap ?s' ! a), a)) as)"
      using c eq by (auto simp: set_delete)
    show "distinct (map fst (cache ?s'))" using dc eq by (simp add: distinct_delete)
    show "0 < capacity ?s'" using cap eq by simp
    show "int (length as) \<le> capacity ?s'" using cap eq by simp
  qed
  with rh eq show ?thesis by auto
qed

lemma insert_rel:
  assumes r: "lru_rel s as"
    and n: "n \<notin> set (head s # as @ [tail s])" "n < length (heap s)"
    and k: "key (heap s ! n) = k" "map_of (cache s) k = None"
    and room: "int (length as) < capacity s"
  shows "\<exists>s'. addToTail n s = Inr s' \<and> lru_rel (s'\<lparr>cache := AList.update k n (cache s')\<rparr>) (as @ [n]) \<and>
           same_data s s'"
proof -
  let ?h = "heap s"
  from r have l: "linked ?h (head s # as @ [tail s])"
    and d: "distinct (head s # as @ [tail s])"
    and b: "list_all (\<lambda>a. a < length ?h) (head s # as @ [tail s])"
    and dk: "distinct (map (\<lambda>a. key (?h ! a)) as)"
    and c: "set (cache s) = set (map (\<lambda>a. (key (?h ! a), a)) as)"
    and dc: "distinct (map fst (cache s))"
    and cap: "0 < capacity s"
    by (auto simp: lru_rel_def)
  have l': "linked ?h ((head s # as) @ [tail s])" using l by simp
  have d': "distinct ((head s # as) @ [tail s])" using d by simp
  have b': "list_all (\<lambda>a. a < length ?h) ((head s # as) @ [tail s])" using b by simp
  have n': "n \<notin> set ((head s # as) @ [tail s])" using n by simp
  from addToTail_ok[OF l' d' b' _ n' n(2)] obtain s' where
    s': "addToTail n s = Inr s'" and l2: "linked (heap s') ((head s # as) @ [n, tail s])"
    and sd: "same_data s s'" by auto
  from sd have eq: "tail s' = tail s" "head s' = head s" "length (heap s') = length ?h"
    "cache s' = cache s" "capacity s' = capacity s"
    "\<And>a. key (heap s' ! a) = key (?h ! a)"
    by (auto simp: same_data_def)
  from k r have knew: "k \<notin> set (map (\<lambda>a. key (?h ! a)) as)" by (simp add: lru_rel_map_of_None)
  from k have kc: "k \<notin> fst ` set (cache s)" by (simp add: map_of_eq_None_iff)
  let ?s'' = "s'\<lparr>cache := AList.update k n (cache s')\<rparr>"
  have "lru_rel ?s'' (as @ [n])"
    unfolding lru_rel_def
  proof (intro conjI)
    show "linked (heap ?s'') (head ?s'' # (as @ [n]) @ [tail ?s''])" using l2 eq by simp
    show "distinct (head ?s'' # (as @ [n]) @ [tail ?s''])" using d n eq by auto
    show "list_all (\<lambda>a. a < length (heap ?s'')) (head ?s'' # (as @ [n]) @ [tail ?s''])"
      using b n eq by simp
    show "distinct (map (\<lambda>a. key (heap ?s'' ! a)) (as @ [n]))"
      using dk knew k eq by auto
    show "set (cache ?s'') = set (map (\<lambda>a. (key (heap ?s'' ! a), a)) (as @ [n]))"
      using c k eq kc by (auto simp: update_fresh)
    show "distinct (map fst (cache ?s''))" using dc eq by (simp add: distinct_update)
    show "0 < capacity ?s''" using cap eq by simp
    show "int (length (as @ [n])) \<le> capacity ?s''" using room eq by simp
  qed
  with s' sd show ?thesis by auto
qed

lemma LRUCache_set_new:
  assumes r: "lru_rel s as" and m: "map_of (cache s) k = None"
  shows "\<exists>s'. LRUCache_set k v s = Inr s' \<and>
           lru_rel s' ((if int (length as) \<ge> capacity s then tl as else as) @ [length (heap s)]) \<and>
           capacity s' = capacity s \<and>
           key (heap s' ! length (heap s)) = k \<and> val (heap s' ! length (heap s)) = v \<and>
           (\<forall>a<length (heap s). key (heap s' ! a) = key (heap s ! a) \<and>
                                  val (heap s' ! a) = val (heap s ! a))"
proof -
  let ?n = "length (heap s)"
  let ?nd = "\<lparr> key = k, val = v, prev = None, nxt = None \<rparr>"
  let ?s0 = "s\<lparr>heap := heap s @ [?nd]\<rparr>"
  have r0: "lru_rel ?s0 as" using r by (rule lru_rel_alloc)
  from r have b: "list_all (\<lambda>a. a < ?n) (head s # as @ [tail s])"
    and cap: "0 < capacity s"
    by (auto simp: lru_rel_def)
  have len: "length (cache s) = length as" using r by (rule lru_rel_length)
  have set_eq: "LRUCache_set k v s =
      (case (if int (length as) \<ge> capacity s then removeHead ?s0 else Inr ?s0) of
         Inl e \<Rightarrow> Inl e
       | Inr s1 \<Rightarrow>
           (case addToTail ?n s1 of
              Inl e \<Rightarrow> Inl e
            | Inr s2 \<Rightarrow> Inr (s2\<lparr>cache := AList.update k ?n (cache s2)\<rparr>)))"
    using m len by (simp add: LRUCache_set_def Let_def)
  obtain s1 where s1: "(if int (length as) \<ge> capacity s then removeHead ?s0 else Inr ?s0) = Inr s1"
    and r1: "lru_rel s1 (if int (length as) \<ge> capacity s then tl as else as)"
    and eq1: "length (heap s1) = Suc ?n" "capacity s1 = capacity s" "head s1 = head s"
      "tail s1 = tail s"
      "\<And>a. key (heap s1 ! a) = key ((heap s @ [?nd]) ! a)"
      "\<And>a. val (heap s1 ! a) = val ((heap s @ [?nd]) ! a)"
    and c1: "map_of (cache s1) k = None"
  proof (cases "int (length as) \<ge> capacity s")
    case True
    with cap obtain y as' where as: "as = y # as'" by (cases as) auto
    from removeHead_rel[OF r0[unfolded as]] obtain s1 where
      rh: "removeHead ?s0 = Inr s1" and r1: "lru_rel s1 as'"
      and e: "length (heap s1) = length (heap ?s0)"
        "\<And>a. key (heap s1 ! a) = key (heap ?s0 ! a)"
        "\<And>a. val (heap s1 ! a) = val (heap ?s0 ! a)"
        "capacity s1 = capacity ?s0" "head s1 = head ?s0" "tail s1 = tail ?s0"
      by auto
    have "map_of (cache ?s0) k = None" using m by simp
    then have "k \<notin> set (map (\<lambda>a. key (heap ?s0 ! a)) as)"
      using lru_rel_map_of_None[OF r0, of k] by blast
    then have "k \<notin> set (map (\<lambda>a. key (heap s1 ! a)) as')" using e as by auto
    then have "map_of (cache s1) k = None" using r1 by (simp add: lru_rel_map_of_None)
    with rh r1 e True as that show ?thesis by simp
  next
    case False
    with r0 m that show ?thesis by simp
  qed
  let ?as1 = "if int (length as) \<ge> capacity s then tl as else as"
  have sub: "set ?as1 \<subseteq> set as" by (auto dest: in_set_tl)
  have n1: "?n \<notin> set (head s1 # ?as1 @ [tail s1])"
    using b sub eq1 by (auto simp: list_all_iff)
  have n2: "?n < length (heap s1)" using eq1 by simp
  have k1: "key (heap s1 ! ?n) = k" using eq1 by simp
  have room: "int (length ?as1) < capacity s1"
    using cap eq1 r by (cases as) (auto simp: lru_rel_def)
  from insert_rel[OF r1 n1 n2 k1 c1 room] obtain s2 where
    s2: "addToTail ?n s1 = Inr s2"
    and r2: "lru_rel (s2\<lparr>cache := AList.update k ?n (cache s2)\<rparr>) (?as1 @ [?n])"
    and sd: "same_data s1 s2" by auto
  let ?s' = "s2\<lparr>cache := AList.update k ?n (cache s2)\<rparr>"
  have res: "LRUCache_set k v s = Inr ?s'" using set_eq s1 s2 by simp
  from sd eq1 have "capacity ?s' = capacity s"
    "key (heap ?s' ! ?n) = k" "val (heap ?s' ! ?n) = v"
    "\<forall>a<?n. key (heap ?s' ! a) = key (heap s ! a) \<and> val (heap ?s' ! a) = val (heap s ! a)"
    by (auto simp: same_data_def nth_append)
  with res r2 show ?thesis by auto
qed

lemma filter_key_remove1:
  "distinct (map f as) \<Longrightarrow> x \<in> set as \<Longrightarrow> filter (\<lambda>a. f a \<noteq> f x) as = remove1 x as"
proof (induction as)
  case Nil
  then show ?case by simp
next
  case (Cons a as)
  show ?case
  proof (cases "a = x")
    case True
    with Cons.prems have "\<forall>b\<in>set as. f b \<noteq> f x" by (auto simp: image_iff)
    then have "filter (\<lambda>a. f a \<noteq> f x) as = as" by (simp add: filter_id_conv)
    with True show ?thesis by simp
  next
    case False
    with Cons show ?thesis by (auto simp: image_iff)
  qed
qed

lemma map_of_key_val:
  "distinct (map f as) \<Longrightarrow> x \<in> set as \<Longrightarrow> map_of (map (\<lambda>a. (f a, g a)) as) (f x) = Some (g x)"
  by (induction as) (auto simp: image_iff)

lemma map_of_key_None:
  "k \<notin> set (map f as) \<Longrightarrow> map_of (map (\<lambda>a. (f a, g a)) as) k = None"
  by (induction as) auto

subsection \<open>The operations on the list of entries\<close>

lemma LRUCache_new_inv:
  assumes "0 < c"
  shows "\<exists>s. LRUCache_new c = Inr s \<and> lru_inv s \<and> entries s = [] \<and> capacity s = c"
proof -
  let ?s = "\<lparr> cache = [], capacity = c, head = 0, tail = 1,
              heap = [\<lparr> key = '''', val = Str '''', prev = None, nxt = Some 1 \<rparr>,
                      \<lparr> key = '''', val = Str '''', prev = Some 0, nxt = None \<rparr>] \<rparr>"
  have n: "LRUCache_new c = Inr ?s" using assms by (simp add: LRUCache_new_def)
  have r: "lru_rel ?s []" using assms by (simp add: lru_rel_def)
  then have "lru_inv ?s" by (auto simp: lru_inv_iff)
  moreover have "entries ?s = []" using lru_rel_entries[OF r] by simp
  ultimately show ?thesis using n by (intro exI[where x = ?s]) simp
qed

lemma lru_inv_facts:
  assumes "lru_inv s"
  shows "distinct (map fst (entries s))"
    and "length (cache s) = length (entries s)"
    and "int (length (entries s)) \<le> capacity s"
    and "0 < capacity s"
    and "map_of (cache s) k = None \<longleftrightarrow> map_of (entries s) k = None"
    and "distinct (map fst (cache s))"
    and "fst ` set (cache s) = fst ` set (entries s)"
proof -
  from assms have r: "lru_rel s (order s)" by (simp add: lru_inv_def)
  have e: "entries s = map (\<lambda>a. (key (heap s ! a), val (heap s ! a))) (order s)"
    by (simp add: entries_def)
  have k: "map fst (entries s) = map (\<lambda>a. key (heap s ! a)) (order s)"
    by (simp add: e comp_def)
  from r show "distinct (map fst (entries s))" unfolding k by (simp add: lru_rel_def)
  from r show "length (cache s) = length (entries s)" by (simp add: lru_rel_length e)
  from r show "int (length (entries s)) \<le> capacity s" by (simp add: lru_rel_def e)
  from r show "0 < capacity s" by (simp add: lru_rel_def)
  have "map_of (entries s) k = None \<longleftrightarrow> k \<notin> set (map fst (entries s))"
    by (simp add: map_of_eq_None_iff)
  then show "map_of (cache s) k = None \<longleftrightarrow> map_of (entries s) k = None"
    using lru_rel_map_of_None[OF r, of k] unfolding k by simp
  from r show "distinct (map fst (cache s))" by (simp add: lru_rel_def)
  from r have "set (cache s) = set (map (\<lambda>a. (key (heap s ! a), a)) (order s))"
    by (simp add: lru_rel_def)
  then have "fst ` set (cache s) = set (map (\<lambda>a. key (heap s ! a)) (order s))"
    by (simp add: image_image)
  then show "fst ` set (cache s) = fst ` set (entries s)"
    using k by (metis list.set_map)
qed

lemma lru_get_entries:
  assumes "lru_inv s"
  shows "\<exists>s'. LRUCache_get k s = Inr (map_of (entries s) k, s') \<and> lru_inv s' \<and>
           capacity s' = capacity s \<and>
           entries s' = (case map_of (entries s) k of
                           None \<Rightarrow> entries s
                         | Some v \<Rightarrow> filter (\<lambda>e. fst e \<noteq> k) (entries s) @ [(k, v)])"
proof (cases "map_of (cache s) k")
  case None
  then have "map_of (entries s) k = None" using lru_inv_facts(5)[OF assms, of k] by simp
  with None assms show ?thesis by (simp add: LRUCache_get_miss)
next
  case (Some x)
  let ?as = "order s"
  let ?kv = "\<lambda>a. (key (heap s ! a), val (heap s ! a))"
  from assms have r: "lru_rel s ?as" by (simp add: lru_inv_def)
  from LRUCache_get_hit[OF r Some] obtain s' where
    g: "LRUCache_get k s = Inr (Some (val (heap s ! x)), s')"
    and r': "lru_rel s' (remove1 x ?as @ [x])" and sd: "same_data s s'" by auto
  from Some r have x: "x \<in> set ?as" "key (heap s ! x) = k" by (simp_all add: lru_rel_map_of)
  from r have dk: "distinct (map (\<lambda>a. key (heap s ! a)) ?as)" by (simp add: lru_rel_def)
  have e: "entries s = map ?kv ?as" by (simp add: entries_def)
  have m: "map_of (entries s) k = Some (val (heap s ! x))"
    unfolding e using map_of_key_val[OF dk x(1), of "\<lambda>a. val (heap s ! a)"] x(2) by simp
  have "entries s' = map (\<lambda>a. (key (heap s' ! a), val (heap s' ! a))) (remove1 x ?as @ [x])"
    using r' by (rule lru_rel_entries)
  also have "\<dots> = map ?kv (remove1 x ?as @ [x])" using sd by (simp add: same_data_def)
  also have "\<dots> = map ?kv (filter (\<lambda>a. key (heap s ! a) \<noteq> k) ?as) @ [(k, val (heap s ! x))]"
    using filter_key_remove1[OF dk x(1)] x(2) by simp
  also have "map ?kv (filter (\<lambda>a. key (heap s ! a) \<noteq> k) ?as) = filter (\<lambda>e. fst e \<noteq> k) (entries s)"
    unfolding e by (simp add: filter_map comp_def)
  finally have "entries s' = filter (\<lambda>e. fst e \<noteq> k) (entries s) @ [(k, val (heap s ! x))]" .
  moreover have "lru_inv s'" using r' by (auto simp: lru_inv_iff)
  moreover have "capacity s' = capacity s" using sd by (simp add: same_data_def)
  ultimately show ?thesis using g m by simp
qed

lemma lru_set_entries:
  assumes "lru_inv s"
  shows "\<exists>s'. LRUCache_set k v s = Inr s' \<and> lru_inv s' \<and> capacity s' = capacity s \<and>
           entries s' =
             (if map_of (entries s) k \<noteq> None then filter (\<lambda>e. fst e \<noteq> k) (entries s)
              else if int (length (entries s)) \<ge> capacity s then tl (entries s)
              else entries s) @ [(k, v)]"
proof (cases "map_of (cache s) k")
  case None
  let ?as = "order s"
  let ?kv = "\<lambda>a. (key (heap s ! a), val (heap s ! a))"
  let ?as' = "if int (length ?as) \<ge> capacity s then tl ?as else ?as"
  from assms have r: "lru_rel s ?as" by (simp add: lru_inv_def)
  from None have mn: "map_of (entries s) k = None" using lru_inv_facts(5)[OF assms, of k] by simp
  from LRUCache_set_new[OF r None, of v] obtain s' where
    g: "LRUCache_set k v s = Inr s'"
    and r': "lru_rel s' (?as' @ [length (heap s)])"
    and c: "capacity s' = capacity s"
    and n: "key (heap s' ! length (heap s)) = k" "val (heap s' ! length (heap s)) = v"
    and old: "\<forall>a<length (heap s). key (heap s' ! a) = key (heap s ! a) \<and>
                                  val (heap s' ! a) = val (heap s ! a)"
    by blast
  from r have b: "\<forall>a\<in>set ?as. a < length (heap s)" by (auto simp: lru_rel_def list_all_iff)
  have sub: "set ?as' \<subseteq> set ?as" by (auto dest: in_set_tl)
  have e: "entries s = map ?kv ?as" by (simp add: entries_def)
  have "entries s' = map (\<lambda>a. (key (heap s' ! a), val (heap s' ! a))) (?as' @ [length (heap s)])"
    using r' by (rule lru_rel_entries)
  also have "\<dots> = map ?kv ?as' @ [(k, v)]" using old b sub n by auto
  also have "map ?kv ?as' = (if int (length (entries s)) \<ge> capacity s then tl (entries s) else entries s)"
    unfolding e by (simp add: map_tl)
  finally have "entries s' = (if int (length (entries s)) \<ge> capacity s then tl (entries s)
                              else entries s) @ [(k, v)]" .
  moreover have "lru_inv s'" using r' by (auto simp: lru_inv_iff)
  ultimately show ?thesis using g c mn by simp
next
  case (Some x)
  let ?as = "order s"
  let ?kv = "\<lambda>a. (key (heap s ! a), val (heap s ! a))"
  let ?s0 = "s\<lparr>heap := set_val x v (heap s)\<rparr>"
  from assms have r: "lru_rel s ?as" by (simp add: lru_inv_def)
  from Some have mn: "map_of (entries s) k \<noteq> None" using lru_inv_facts(5)[OF assms, of k] by simp
  from LRUCache_set_existing[OF r Some, of v] obtain s' where
    g: "LRUCache_set k v s = Inr s'"
    and r': "lru_rel s' (remove1 x ?as @ [x])" and sd: "same_data ?s0 s'" by auto
  from Some r have x: "x \<in> set ?as" "key (heap s ! x) = k" by (simp_all add: lru_rel_map_of)
  from r have dk: "distinct (map (\<lambda>a. key (heap s ! a)) ?as)" 
    and da: "distinct ?as" and b: "\<forall>a\<in>set ?as. a < length (heap s)"
    by (auto simp: lru_rel_def list_all_iff)
  have e: "entries s = map ?kv ?as" by (simp add: entries_def)
  have xn: "x \<notin> set (remove1 x ?as)" using da by simp
  have "entries s' = map (\<lambda>a. (key (heap s' ! a), val (heap s' ! a))) (remove1 x ?as @ [x])"
    using r' by (rule lru_rel_entries)
  also have "\<dots> = map ?kv (remove1 x ?as) @ [(k, v)]"
    using sd x b xn by (auto simp: same_data_def)
  also have "map ?kv (remove1 x ?as) = map ?kv (filter (\<lambda>a. key (heap s ! a) \<noteq> k) ?as)"
    using filter_key_remove1[OF dk x(1)] x(2) by simp
  also have "\<dots> = filter (\<lambda>e. fst e \<noteq> k) (entries s)"
    unfolding e by (simp add: filter_map comp_def)
  finally have "entries s' = filter (\<lambda>e. fst e \<noteq> k) (entries s) @ [(k, v)]" .
  moreover have "lru_inv s'" using r' by (auto simp: lru_inv_iff)
  moreover have "capacity s' = capacity s" using sd by (simp add: same_data_def)
  ultimately show ?thesis using g mn by simp
qed

subsection \<open>Histories of calls\<close>

lemma map_of_touch:
  "map_of (filter (\<lambda>e. fst e \<noteq> k) xs @ [(k, v)]) k' = (if k' = k then Some v else map_of xs k')"
  by (induction xs) (auto simp: map_add_def split: option.splits)

lemma map_of_tl_Some:
  "distinct (map fst xs) \<Longrightarrow> map_of (tl xs) k = Some v \<Longrightarrow> map_of xs k = Some v"
  by (cases xs) (auto dest: map_of_SomeD simp: image_iff)

lemma map_of_tl_None: "map_of xs k = None \<Longrightarrow> map_of (tl xs) k = None"
  by (cases xs) (auto split: if_splits)

lemma map_of_tl_other:
  "distinct (map fst xs) \<Longrightarrow> xs \<noteq> [] \<Longrightarrow> k \<noteq> fst (hd xs) \<Longrightarrow> map_of (tl xs) k = map_of xs k"
  by (cases xs) auto

lemma map_of_tl_hd:
  "distinct (map fst xs) \<Longrightarrow> xs \<noteq> [] \<Longrightarrow> map_of (tl xs) (fst (hd xs)) = None"
  by (cases xs) (auto simp: map_of_eq_None_iff)

lemma map_of_snoc:
  "map_of (xs @ [(k, v)]) k' = (case map_of xs k' of Some w \<Rightarrow> Some w | None \<Rightarrow> if k' = k then Some v else None)"
  by (induction xs) auto

lemma last_set_snoc_set:
  "last_set k (ops @ [OpSet k' v]) = (if k' = k then Some v else last_set k ops)"
  by (induction k ops rule: last_set.induct) auto

lemma last_set_snoc_get: "last_set k (ops @ [OpGet k']) = last_set k ops"
  by (induction k ops rule: last_set.induct) auto

lemma age_snoc: "age k (ops @ [x]) = (if op_key x = k then 0 else Suc (age k ops))"
  by (simp add: age_def)

lemma sorted_wrt_tl: "sorted_wrt R xs \<Longrightarrow> sorted_wrt R (tl xs)"
  by (cases xs) auto

lemma sorted_age_other:
  assumes "sorted_wrt (\<lambda>a b. age b ops < age a ops) ks" and "k \<notin> set ks" and "op_key x = k"
  shows "sorted_wrt (\<lambda>a b. age b (ops @ [x]) < age a (ops @ [x])) ks"
proof (rule sorted_wrt_mono_rel[OF _ assms(1)])
  fix a b assume "a \<in> set ks" "b \<in> set ks" "age b ops < age a ops"
  with assms(2,3) show "age b (ops @ [x]) < age a (ops @ [x])" by (auto simp: age_snoc)
qed

lemma sorted_age_touch:
  assumes "sorted_wrt (\<lambda>a b. age b ops < age a ops) ks" and "k \<notin> set ks" and "op_key x = k"
  shows "sorted_wrt (\<lambda>a b. age b (ops @ [x]) < age a (ops @ [x])) (ks @ [k])"
  using sorted_age_other[OF assms] assms(2,3)
  by (auto simp: sorted_wrt_append age_snoc)

lemma apply_ops_append:
  "apply_ops (xs @ ys) s = (case apply_ops xs s of Inl e \<Rightarrow> Inl e | Inr s' \<Rightarrow> apply_ops ys s')"
  by (induction xs arbitrary: s) (auto split: sum.splits)

lemma hist_inv_set:
  assumes h: "hist_inv ops s"
  shows "\<exists>s'. LRUCache_set k v s = Inr s' \<and> hist_inv (ops @ [OpSet k v]) s' \<and> capacity s' = capacity s"
proof -
  let ?R = "\<lambda>a b. age b ops < age a ops"
  let ?R' = "\<lambda>a b. age b (ops @ [OpSet k v]) < age a (ops @ [OpSet k v])"
  from h have inv: "lru_inv s"
    and vals: "\<And>k v. map_of (entries s) k = Some v \<Longrightarrow> last_set k ops = Some v"
    and srt: "sorted_wrt ?R (map fst (entries s))"
    by (auto simp: hist_inv_def)
  have dist: "distinct (map fst (entries s))" using inv by (rule lru_inv_facts(1))
  define base where "base =
     (if map_of (entries s) k \<noteq> None then filter (\<lambda>e. fst e \<noteq> k) (entries s)
      else if int (length (entries s)) \<ge> capacity s then tl (entries s)
      else entries s)"
  from lru_set_entries[OF inv, of k v] obtain s' where
    g: "LRUCache_set k v s = Inr s'" and inv': "lru_inv s'" and c: "capacity s' = capacity s"
    and e: "entries s' = base @ [(k, v)]" unfolding base_def by auto
  have base_sub: "k' \<noteq> k \<and> map_of (entries s) k' = Some w" if m: "map_of base k' = Some w" for k' w
  proof (cases "map_of (entries s) k \<noteq> None")
    case True
    with m have "map_of (filter (\<lambda>e. fst e \<noteq> k) (entries s)) k' = Some w" by (simp add: base_def)
    then have "(k', w) \<in> set (filter (\<lambda>e. fst e \<noteq> k) (entries s))" by (rule map_of_SomeD)
    then have "k' \<noteq> k" "(k', w) \<in> set (entries s)" by auto
    with dist show ?thesis by simp
  next
    case False
    then have n: "map_of (entries s) k = None" by simp
    have "map_of (entries s) k' = Some w"
    proof (cases "int (length (entries s)) \<ge> capacity s")
      case True
      with m False have "map_of (tl (entries s)) k' = Some w" by (simp add: base_def)
      with dist show ?thesis by (rule map_of_tl_Some)
    next
      case False
      with m n show ?thesis by (simp add: base_def)
    qed
    with n show ?thesis by auto
  qed
  have v': "last_set k' (ops @ [OpSet k v]) = Some w" if m: "map_of (entries s') k' = Some w" for k' w
  proof (cases "map_of base k'")
    case None
    with m have "k' = k" "w = v" unfolding e by (auto simp: map_of_snoc split: if_splits)
    then show ?thesis by (simp add: last_set_snoc_set)
  next
    case (Some u)
    with m have "u = w" unfolding e by (simp add: map_of_snoc)
    with Some base_sub[of k' w] have "k' \<noteq> k" "map_of (entries s) k' = Some w" by auto
    with vals[of k' w] show ?thesis by (simp add: last_set_snoc_set)
  qed
  have kb: "k \<notin> set (map fst base)"
  proof (cases "map_of (entries s) k \<noteq> None")
    case True
    then show ?thesis by (auto simp: base_def)
  next
    case False
    then have "map_of (entries s) k = None" by simp
    then have "map_of base k = None" by (auto simp: base_def dest: map_of_tl_None)
    then show ?thesis by (simp add: map_of_eq_None_iff)
  qed
  have f: "map fst (filter (\<lambda>e. fst e \<noteq> k) (entries s)) = filter (\<lambda>a. a \<noteq> k) (map fst (entries s))"
    by (simp add: filter_map comp_def)
  have sb: "sorted_wrt ?R (map fst base)"
  proof (cases "map_of (entries s) k \<noteq> None")
    case True
    then have "map fst base = filter (\<lambda>a. a \<noteq> k) (map fst (entries s))" by (simp add: base_def f)
    with srt show ?thesis by (simp add: sorted_wrt_filter)
  next
    case False
    then have "map fst base = map fst (entries s) \<or> map fst base = tl (map fst (entries s))"
      by (simp add: base_def map_tl)
    with srt show ?thesis by (auto intro: sorted_wrt_tl)
  qed
  have "sorted_wrt ?R' (map fst base @ [k])"
    by (rule sorted_age_touch[OF sb kb]) simp
  then have s': "sorted_wrt ?R' (map fst (entries s'))" unfolding e by simp
  from inv' v' s' have "hist_inv (ops @ [OpSet k v]) s'" unfolding hist_inv_def by blast
  with g c show ?thesis by auto
qed

lemma hist_inv_get:
  assumes h: "hist_inv ops s"
  shows "\<exists>s'. LRUCache_get k s = Inr (map_of (entries s) k, s') \<and>
           hist_inv (ops @ [OpGet k]) s' \<and> capacity s' = capacity s"
proof -
  let ?R = "\<lambda>a b. age b ops < age a ops"
  let ?R' = "\<lambda>a b. age b (ops @ [OpGet k]) < age a (ops @ [OpGet k])"
  from h have inv: "lru_inv s"
    and vals: "\<And>k v. map_of (entries s) k = Some v \<Longrightarrow> last_set k ops = Some v"
    and srt: "sorted_wrt ?R (map fst (entries s))"
    by (auto simp: hist_inv_def)
  from lru_get_entries[OF inv, of k] obtain s' where
    g: "LRUCache_get k s = Inr (map_of (entries s) k, s')" and inv': "lru_inv s'"
    and c: "capacity s' = capacity s"
    and e: "entries s' = (case map_of (entries s) k of
                           None \<Rightarrow> entries s
                         | Some v \<Rightarrow> filter (\<lambda>e. fst e \<noteq> k) (entries s) @ [(k, v)])"
    by auto
  have "hist_inv (ops @ [OpGet k]) s'"
  proof (cases "map_of (entries s) k")
    case None
    then have e': "entries s' = entries s" using e by simp
    from None have kn: "k \<notin> set (map fst (entries s))" by (simp add: map_of_eq_None_iff)
    have "sorted_wrt ?R' (map fst (entries s))"
      by (rule sorted_age_other[OF srt kn]) simp
    with inv' vals show ?thesis unfolding hist_inv_def e' by (simp add: last_set_snoc_get)
  next
    case (Some v)
    then have e': "entries s' = filter (\<lambda>e. fst e \<noteq> k) (entries s) @ [(k, v)]" using e by simp
    have m: "map_of (entries s') k' = map_of (entries s) k'" for k'
      unfolding e' map_of_touch using Some by simp
    have f: "map fst (filter (\<lambda>e. fst e \<noteq> k) (entries s)) = filter (\<lambda>a. a \<noteq> k) (map fst (entries s))"
      by (simp add: filter_map comp_def)
    have sb: "sorted_wrt ?R (filter (\<lambda>a. a \<noteq> k) (map fst (entries s)))"
      using srt by (simp add: sorted_wrt_filter)
    have "sorted_wrt ?R' (filter (\<lambda>a. a \<noteq> k) (map fst (entries s)) @ [k])"
      by (rule sorted_age_touch[OF sb]) simp_all
    then have "sorted_wrt ?R' (map fst (entries s'))" unfolding e' by (simp add: f)
    with inv' vals show ?thesis unfolding hist_inv_def by (simp add: m last_set_snoc_get)
  qed
  with g c show ?thesis by auto
qed

lemma hist_inv_step:
  assumes h: "hist_inv ops s"
  shows "\<exists>s'. apply_op x s = Inr s' \<and> hist_inv (ops @ [x]) s' \<and> capacity s' = capacity s"
proof (cases x)
  case (OpSet k v)
  with hist_inv_set[OF h, of k v] show ?thesis by auto
next
  case (OpGet k)
  with hist_inv_get[OF h, of k] show ?thesis by auto
qed

lemma lru_run_snoc:
  "lru_run c (ops @ [x]) = (case lru_run c ops of Inl e \<Rightarrow> Inl e | Inr s \<Rightarrow> apply_op x s)"
  by (auto simp: lru_run_def apply_ops_append split: sum.splits)

lemma lru_run_inv:
  assumes "0 < c"
  shows "\<exists>s. lru_run c ops = Inr s \<and> hist_inv ops s \<and> capacity s = c"
proof (induction ops rule: rev_induct)
  case Nil
  from LRUCache_new_inv[OF assms] obtain s :: "'a LRUCache" where
    "LRUCache_new c = Inr s" "lru_inv s" "entries s = []" "capacity s = c" by auto
  then show ?case by (auto simp: lru_run_def hist_inv_def)
next
  case (snoc x ops)
  then obtain s where s: "lru_run c ops = Inr s" "hist_inv ops s" "capacity s = c" by auto
  from hist_inv_step[OF s(2), of x] s show ?case by (auto simp: lru_run_snoc)
qed

lemma lru_run_pos: "lru_run c ops = Inr s \<Longrightarrow> 0 < c"
  by (auto simp: lru_run_def LRUCache_new_def split: if_splits)

lemma lru_run_hist:
  assumes "lru_run c ops = Inr s"
  shows "hist_inv ops s" and "capacity s = c"
  using lru_run_inv[OF lru_run_pos[OF assms], of ops] assms by auto

lemma resident_iff:
  assumes "lru_inv s"
  shows "(map_of (cache s) k \<noteq> None) = (map_of (entries s) k \<noteq> None)"
  using lru_inv_facts(5)[OF assms, of k] by simp

section \<open>Properties of the ordered store\<close>



text \<open>
  Claim C4. Let the store be reached by the calls \<open>ops\<close> from construction with capacity
  \<open>c\<close>. If it is full and \<open>k\<close> is not resident, \<^verbatim>\<open>set(k, v)\<close> evicts exactly one key
  \<open>e\<close>: \<open>e\<close> was resident, every other resident key was touched (by \<^verbatim>\<open>get\<close> or
  \<^verbatim>\<open>set\<close>) more recently than \<open>e\<close>, the resident keys afterwards are \<open>k\<close> and the former
  ones except \<open>e\<close>, and the other entries keep their values. If \<open>k\<close> is resident,
  \<^verbatim>\<open>set(k, v)\<close> leaves the set of resident keys and its size unchanged.
\<close>

theorem lru_set_evicts_least_recently_touched:
  assumes r: "lru_run c ops = Inr s"
  shows "(map_of (cache s) k = None \<and> int (length (cache s)) = c \<longrightarrow>
           (\<exists>s' e. LRUCache_set k v s = Inr s' \<and>
               map_of (cache s) e \<noteq> None \<and>
               (\<forall>k'. map_of (cache s) k' \<noteq> None \<and> k' \<noteq> e \<longrightarrow> age k' ops < age e ops) \<and>
               (\<forall>k'. (map_of (cache s') k' \<noteq> None) = (k' = k \<or> (map_of (cache s) k' \<noteq> None \<and> k' \<noteq> e))) \<and>
               (\<forall>k'. k' \<noteq> k \<and> k' \<noteq> e \<longrightarrow> map_of (entries s') k' = map_of (entries s) k') \<and>
               map_of (entries s') k = Some v \<and>
               length (cache s') = length (cache s))) \<and>
         (map_of (cache s) k \<noteq> None \<longrightarrow>
           (\<exists>s'. LRUCache_set k v s = Inr s' \<and>
               (\<forall>k'. (map_of (cache s') k' \<noteq> None) = (map_of (cache s) k' \<noteq> None)) \<and>
               (\<forall>k'. k' \<noteq> k \<longrightarrow> map_of (entries s') k' = map_of (entries s) k') \<and>
               map_of (entries s') k = Some v \<and>
               length (cache s') = length (cache s)))"
proof -
  from lru_run_hist[OF r] have h: "hist_inv ops s" and cap: "capacity s = c" by auto
  from h have inv: "lru_inv s"
    and srt: "sorted_wrt (\<lambda>a b. age b ops < age a ops) (map fst (entries s))"
    by (auto simp: hist_inv_def)
  have dist: "distinct (map fst (entries s))" using inv by (rule lru_inv_facts(1))
  have len: "length (cache s) = length (entries s)" using inv by (rule lru_inv_facts(2))
  from lru_set_entries[OF inv, of k v] obtain s' where
    g: "LRUCache_set k v s = Inr s'" and inv': "lru_inv s'"
    and e: "entries s' =
             (if map_of (entries s) k \<noteq> None then filter (\<lambda>e. fst e \<noteq> k) (entries s)
              else if int (length (entries s)) \<ge> capacity s then tl (entries s)
              else entries s) @ [(k, v)]" by auto
  have len': "length (cache s') = length (entries s')" using inv' by (rule lru_inv_facts(2))
  show ?thesis
  proof (intro conjI impI)
    assume a: "map_of (cache s) k = None \<and> int (length (cache s)) = c"
    then have kn: "map_of (entries s) k = None" using lru_inv_facts(5)[OF inv, of k] by simp
    from a len cap lru_run_pos[OF r] have full: "int (length (entries s)) \<ge> capacity s"
      and ne: "entries s \<noteq> []" by auto
    from kn full have e': "entries s' = tl (entries s) @ [(k, v)]" using e by simp
    let ?e = "fst (hd (entries s))"
    from ne have he: "map_of (entries s) ?e \<noteq> None"
      by (cases "entries s") auto
    have tl_e: "map_of (tl (entries s)) k' = (if k' = ?e then None else map_of (entries s) k')" for k'
      using map_of_tl_hd[OF dist ne] map_of_tl_other[OF dist ne, of k'] by simp
    have m': "map_of (entries s') k' =
               (if k' = k then Some v else if k' = ?e then None else map_of (entries s) k')" for k'
      unfolding e' map_of_snoc tl_e using kn he by (auto split: option.splits)
    have ages: "age k' ops < age ?e ops" if "map_of (cache s) k' \<noteq> None \<and> k' \<noteq> ?e" for k'
    proof -
      from that have "map_of (entries s) k' \<noteq> None" "k' \<noteq> ?e"
        unfolding resident_iff[OF inv] by auto
      then have "k' \<in> set (map fst (entries s))" "k' \<noteq> ?e"
        by (auto simp: map_of_eq_None_iff simp del: not_None_eq)
      with srt ne show ?thesis by (cases "entries s") auto
    qed
    have "map_of (cache s) ?e \<noteq> None" using he unfolding resident_iff[OF inv] .
    moreover have "\<forall>k'. (map_of (cache s') k' \<noteq> None) = (k' = k \<or> (map_of (cache s) k' \<noteq> None \<and> k' \<noteq> ?e))"
      unfolding resident_iff[OF inv] resident_iff[OF inv'] m' by auto
    moreover have "\<forall>k'. k' \<noteq> k \<and> k' \<noteq> ?e \<longrightarrow> map_of (entries s') k' = map_of (entries s) k'"
      by (simp add: m')
    moreover have "map_of (entries s') k = Some v" by (simp add: m')
    moreover have "length (cache s') = length (cache s)" using ne by (simp add: len len' e')
    ultimately show "\<exists>s' e. LRUCache_set k v s = Inr s' \<and>
               map_of (cache s) e \<noteq> None \<and>
               (\<forall>k'. map_of (cache s) k' \<noteq> None \<and> k' \<noteq> e \<longrightarrow> age k' ops < age e ops) \<and>
               (\<forall>k'. (map_of (cache s') k' \<noteq> None) = (k' = k \<or> (map_of (cache s) k' \<noteq> None \<and> k' \<noteq> e))) \<and>
               (\<forall>k'. k' \<noteq> k \<and> k' \<noteq> e \<longrightarrow> map_of (entries s') k' = map_of (entries s) k') \<and>
               map_of (entries s') k = Some v \<and>
               length (cache s') = length (cache s)"
      using g ages by blast
  next
    assume a: "map_of (cache s) k \<noteq> None"
    then have kn: "map_of (entries s) k \<noteq> None" unfolding resident_iff[OF inv] .
    then have e': "entries s' = filter (\<lambda>e. fst e \<noteq> k) (entries s) @ [(k, v)]" using e by simp
    have m': "map_of (entries s') k' = (if k' = k then Some v else map_of (entries s) k')" for k'
      unfolding e' map_of_touch by simp
    from kn obtain w where "map_of (entries s) k = Some w" by auto
    then have kin: "(k, w) \<in> set (entries s)" by (rule map_of_SomeD)
    have "length (map fst (entries s')) = length (filter (\<lambda>a. a \<noteq> k) (map fst (entries s))) + 1"
      unfolding e' by (simp add: filter_map comp_def)
    also have "filter (\<lambda>a. a \<noteq> k) (map fst (entries s)) = removeAll k (map fst (entries s))"
      by (simp add: removeAll_filter_not_eq) (metis)
    also have "length (removeAll k (map fst (entries s))) = length (map fst (entries s)) - 1"
      using dist kin by (simp add: distinct_remove1_removeAll[symmetric] length_remove1 image_iff)
        (metis fst_conv)
    finally have "length (entries s') = length (entries s)" using kin by (cases "entries s") auto
    then have "length (cache s') = length (cache s)" by (simp add: len len')
    moreover have "\<forall>k'. (map_of (cache s') k' \<noteq> None) = (map_of (cache s) k' \<noteq> None)"
      unfolding resident_iff[OF inv] resident_iff[OF inv'] m' using kn by auto
    moreover have "\<forall>k'. k' \<noteq> k \<longrightarrow> map_of (entries s') k' = map_of (entries s) k'"
      by (simp add: m')
    moreover have "map_of (entries s') k = Some v" by (simp add: m')
    ultimately show "\<exists>s'. LRUCache_set k v s = Inr s' \<and>
               (\<forall>k'. (map_of (cache s') k' \<noteq> None) = (map_of (cache s) k' \<noteq> None)) \<and>
               (\<forall>k'. k' \<noteq> k \<longrightarrow> map_of (entries s') k' = map_of (entries s) k') \<and>
               map_of (entries s') k = Some v \<and>
               length (cache s') = length (cache s)"
      using g by blast
  qed
qed

theorem lru_set_evicts_least_recently_touched_witness:
  "\<exists>s. lru_run 3 [OpSet ''a'' (Obj (1::nat)), OpSet ''b'' (Obj 2), OpSet ''c'' (Obj 3), OpGet ''a'', OpGet ''b''] = Inr s \<and>
        map_of (cache s) ''d'' = None \<and> int (length (cache s)) = 3 \<and>
        map_of (cache s) ''a'' \<noteq> None \<and>
        age ''c'' [OpSet ''a'' (Obj (1::nat)), OpSet ''b'' (Obj 2), OpSet ''c'' (Obj 3), OpGet ''a'', OpGet ''b''] = 2 \<and>
        age ''a'' [OpSet ''a'' (Obj (1::nat)), OpSet ''b'' (Obj 2), OpSet ''c'' (Obj 3), OpGet ''a'', OpGet ''b''] = 1 \<and>
        age ''b'' [OpSet ''a'' (Obj (1::nat)), OpSet ''b'' (Obj 2), OpSet ''c'' (Obj 3), OpGet ''a'', OpGet ''b''] = 0 \<and>
        (\<exists>s'. LRUCache_set ''d'' (Obj 4) s = Inr s' \<and>
              map_of (cache s') ''c'' = None \<and> map_of (cache s') ''a'' \<noteq> None \<and>
              map_of (cache s') ''b'' \<noteq> None \<and> map_of (cache s') ''d'' \<noteq> None \<and>
              length (cache s') = 3) \<and>
        (\<exists>s'. LRUCache_set ''a'' (Obj 5) s = Inr s' \<and>
              map_of (cache s') ''c'' \<noteq> None \<and> map_of (entries s') ''a'' = Some (Obj 5) \<and>
              length (cache s') = 3)"
proof -
  let ?ops = "[OpSet ''a'' (Obj (1::nat)), OpSet ''b'' (Obj 2), OpSet ''c'' (Obj 3), OpGet ''a'', OpGet ''b'']"
  have ev: "case lru_run 3 ?ops of
              Inl e \<Rightarrow> False
            | Inr s \<Rightarrow> map_of (cache s) ''d'' = None \<and> length (cache s) = 3 \<and>
                       map_of (cache s) ''a'' \<noteq> None \<and> map_of (cache s) ''c'' \<noteq> None \<and>
                       (case LRUCache_set ''d'' (Obj 4) s of
                          Inl e \<Rightarrow> False
                        | Inr s' \<Rightarrow> map_of (cache s') ''c'' = None \<and> map_of (cache s') ''a'' \<noteq> None \<and>
                                    map_of (cache s') ''b'' \<noteq> None)"
    by code_simp
  then obtain s where r: "lru_run 3 ?ops = Inr s"
    and f: "map_of (cache s) ''d'' = None" "length (cache s) = 3"
      "map_of (cache s) ''a'' \<noteq> None" "map_of (cache s) ''c'' \<noteq> None"
    and d: "case LRUCache_set ''d'' (Obj 4) s of
                          Inl e \<Rightarrow> False
                        | Inr s' \<Rightarrow> map_of (cache s') ''c'' = None \<and> map_of (cache s') ''a'' \<noteq> None \<and>
                                    map_of (cache s') ''b'' \<noteq> None"
    by (cases "lru_run 3 ?ops") auto
  note inst = lru_set_evicts_least_recently_touched[OF r]
  from inst[of "''d''" "Obj 4"] f obtain s1 where
    s1: "LRUCache_set ''d'' (Obj 4) s = Inr s1" "map_of (entries s1) ''d'' = Some (Obj 4)"
      "length (cache s1) = length (cache s)"
    by auto
  from inst[of "''a''" "Obj 5"] f obtain s2 where
    s2: "LRUCache_set ''a'' (Obj 5) s = Inr s2" "map_of (entries s2) ''a'' = Some (Obj 5)"
      "length (cache s2) = length (cache s)"
      "\<forall>k'. (map_of (cache s2) k' \<noteq> None) = (map_of (cache s) k' \<noteq> None)"
    by auto
  from inst[of "''d''" "Obj 4"] f s1(1) have dd: "map_of (cache s1) ''d'' \<noteq> None" by auto
  from s2(4) f(4) have c2: "map_of (cache s2) ''c'' \<noteq> None" by blast
  have ages: "age ''c'' ?ops = 2" "age ''a'' ?ops = 1" "age ''b'' ?ops = 0"
    by (simp_all add: age_def)
  from d s1(1) have d1: "map_of (cache s1) ''c'' = None" "map_of (cache s1) ''a'' \<noteq> None"
    "map_of (cache s1) ''b'' \<noteq> None" by simp_all
  show ?thesis
    using r f ages s1(1,3) d1 dd s2(1,2,3) c2 by (intro exI[of _ s] conjI exI[of _ s1] exI[of _ s2]) simp_all
qed

text \<open>
  Claim C6. Let the store be reached by the calls \<open>ops\<close> from construction with capacity
  \<open>c\<close>. \<^verbatim>\<open>get\<close> of a key that is not resident returns \<^verbatim>\<open>undefined\<close> and changes
  nothing. \<^verbatim>\<open>get\<close> of a resident key returns its value (the one last set) and moves its
  entry to the most recently used end of the list, the other entries keeping their order;
  no key is added or removed. The move changes what is evicted: when the store is full and
  holds at least two entries, the next insertion of a new key evicts the least recently used
  end of the new order and the key just read stays resident.
\<close>

theorem lru_get_promotes:
  assumes r: "lru_run c ops = Inr s"
  shows "(map_of (cache s) k = None \<longrightarrow> LRUCache_get k s = Inr (None, s)) \<and>
         (map_of (cache s) k \<noteq> None \<longrightarrow>
            (\<exists>v s'. LRUCache_get k s = Inr (Some v, s') \<and> last_set k ops = Some v \<and>
               entries s' = filter (\<lambda>e. fst e \<noteq> k) (entries s) @ [(k, v)] \<and>
               (\<forall>k'. (map_of (cache s') k' \<noteq> None) = (map_of (cache s) k' \<noteq> None)) \<and>
               (\<forall>k2 v2. map_of (cache s') k2 = None \<and> int (length (cache s')) = c \<and> 2 \<le> c \<longrightarrow>
                  (\<exists>s''. LRUCache_set k2 v2 s' = Inr s'' \<and>
                         entries s'' = tl (entries s') @ [(k2, v2)] \<and>
                         map_of (cache s'') k \<noteq> None))))"
proof (intro conjI impI)
  assume "map_of (cache s) k = None"
  then show "LRUCache_get k s = Inr (None, s)" by (rule LRUCache_get_miss)
next
  assume a: "map_of (cache s) k \<noteq> None"
  from lru_run_hist[OF r] have h: "hist_inv ops s" and cap: "capacity s = c" by auto
  from h have inv: "lru_inv s"
    and vals: "\<And>k v. map_of (entries s) k = Some v \<Longrightarrow> last_set k ops = Some v"
    by (auto simp: hist_inv_def)
  from a obtain v where v: "map_of (entries s) k = Some v"
    unfolding resident_iff[OF inv] by auto
  from lru_get_entries[OF inv, of k] v obtain s' where
    g: "LRUCache_get k s = Inr (Some v, s')" and inv': "lru_inv s'"
    and cap': "capacity s' = capacity s"
    and e': "entries s' = filter (\<lambda>e. fst e \<noteq> k) (entries s) @ [(k, v)]"
    by auto
  have m': "map_of (entries s') k' = map_of (entries s) k'" for k'
    unfolding e' map_of_touch using v by simp
  have same: "\<forall>k'. (map_of (cache s') k' \<noteq> None) = (map_of (cache s) k' \<noteq> None)"
    unfolding resident_iff[OF inv] resident_iff[OF inv'] m' by simp
  have next_set: "\<exists>s''. LRUCache_set k2 v2 s' = Inr s'' \<and>
                         entries s'' = tl (entries s') @ [(k2, v2)] \<and>
                         map_of (cache s'') k \<noteq> None"
    if b: "map_of (cache s') k2 = None \<and> int (length (cache s')) = c \<and> 2 \<le> c" for k2 v2
  proof -
    let ?F = "filter (\<lambda>e. fst e \<noteq> k) (entries s)"
    from b have k2n: "map_of (entries s') k2 = None" using lru_inv_facts(5)[OF inv', of k2] by simp
    from b lru_inv_facts(2)[OF inv'] cap cap' have full: "int (length (entries s')) \<ge> capacity s'"
      and two: "2 \<le> length (entries s')" by auto
    from lru_set_entries[OF inv', of k2 v2] k2n full obtain s'' where
      g2: "LRUCache_set k2 v2 s' = Inr s''" and inv'': "lru_inv s''"
      and e'': "entries s'' = tl (entries s') @ [(k2, v2)]" by auto
    from two have Fne: "?F \<noteq> []" unfolding e' by auto
    then have "entries s'' = tl ?F @ [(k, v)] @ [(k2, v2)]" unfolding e'' e' by simp
    then have "map_of (entries s'') k \<noteq> None" by (simp add: map_add_def split: option.splits)
    then have "map_of (cache s'') k \<noteq> None" unfolding resident_iff[OF inv''] .
    with g2 e'' show ?thesis by blast
  qed
  from g vals[OF v] e' same next_set
  show "\<exists>v s'. LRUCache_get k s = Inr (Some v, s') \<and> last_set k ops = Some v \<and>
               entries s' = filter (\<lambda>e. fst e \<noteq> k) (entries s) @ [(k, v)] \<and>
               (\<forall>k'. (map_of (cache s') k' \<noteq> None) = (map_of (cache s) k' \<noteq> None)) \<and>
               (\<forall>k2 v2. map_of (cache s') k2 = None \<and> int (length (cache s')) = c \<and> 2 \<le> c \<longrightarrow>
                  (\<exists>s''. LRUCache_set k2 v2 s' = Inr s'' \<and>
                         entries s'' = tl (entries s') @ [(k2, v2)] \<and>
                         map_of (cache s'') k \<noteq> None))"
    by blast
qed

theorem lru_get_promotes_witness:
  "\<exists>s. lru_run 2 [OpSet ''a'' (Obj (1::nat)), OpSet ''b'' (Obj 2)] = Inr s \<and>
        map_of (cache s) ''z'' = None \<and> LRUCache_get ''z'' s = Inr (None, s) \<and>
        map_of (cache s) ''a'' \<noteq> None \<and>
        entries s = [(''a'', Obj 1), (''b'', Obj 2)] \<and>
        (\<exists>s'. LRUCache_get ''a'' s = Inr (Some (Obj 1), s') \<and>
              entries s' = [(''b'', Obj 2), (''a'', Obj 1)] \<and>
              map_of (cache s') ''c'' = None \<and> int (length (cache s')) = 2 \<and>
              (\<exists>s''. LRUCache_set ''c'' (Obj 3) s' = Inr s'' \<and>
                     entries s'' = [(''a'', Obj 1), (''c'', Obj 3)] \<and>
                     map_of (cache s'') ''a'' \<noteq> None))"
proof -
  let ?ops = "[OpSet ''a'' (Obj (1::nat)), OpSet ''b'' (Obj 2)]"
  have ev: "case lru_run 2 ?ops of
              Inl e \<Rightarrow> False
            | Inr s \<Rightarrow> map_of (cache s) ''z'' = None \<and> map_of (cache s) ''a'' \<noteq> None \<and>
                       map_of (cache s) ''c'' = None \<and> length (cache s) = 2 \<and>
                       entries s = [(''a'', Obj 1), (''b'', Obj 2)]"
    by code_simp
  then obtain s where r: "lru_run 2 ?ops = Inr s"
    and f: "map_of (cache s) ''z'' = None" "map_of (cache s) ''a'' \<noteq> None"
      "map_of (cache s) ''c'' = None" "length (cache s) = 2"
      "entries s = [(''a'', Obj 1), (''b'', Obj 2)]"
    by (cases "lru_run 2 ?ops") auto
  have ls: "last_set ''a'' ?ops = Some (Obj 1)" by simp
  from lru_get_promotes[OF r, of "''z''"] f(1) have z: "LRUCache_get ''z'' s = Inr (None, s)"
    by blast
  from lru_get_promotes[OF r, of "''a''"] f(2) obtain v s' where
    g: "LRUCache_get ''a'' s = Inr (Some v, s')" and lv: "last_set ''a'' ?ops = Some v"
    and e': "entries s' = filter (\<lambda>e. fst e \<noteq> ''a'') (entries s) @ [(''a'', v)]"
    and same: "\<forall>k'. (map_of (cache s') k' \<noteq> None) = (map_of (cache s) k' \<noteq> None)"
    and nxt: "\<forall>k2 v2. map_of (cache s') k2 = None \<and> int (length (cache s')) = 2 \<and> (2::int) \<le> 2 \<longrightarrow>
                  (\<exists>s''. LRUCache_set k2 v2 s' = Inr s'' \<and>
                         entries s'' = tl (entries s') @ [(k2, v2)] \<and>
                         map_of (cache s'') ''a'' \<noteq> None)"
    by blast
  from lv ls have v: "v = Obj 1" by simp
  from e' f(5) v have es': "entries s' = [(''b'', Obj 2), (''a'', Obj 1)]" by simp
  from same f(3) have c': "map_of (cache s') ''c'' = None" by blast
  have len': "int (length (cache s')) = 2"
  proof -
    have "case lru_run 2 ?ops of Inl e \<Rightarrow> False
          | Inr s \<Rightarrow> (case LRUCache_get ''a'' s of Inl e \<Rightarrow> False | Inr (x, t) \<Rightarrow> length (cache t) = 2)"
      by code_simp
    with r g show ?thesis by simp
  qed
  from nxt c' len' obtain s'' where
    s'': "LRUCache_set ''c'' (Obj 3) s' = Inr s''" "entries s'' = tl (entries s') @ [(''c'', Obj 3)]"
      "map_of (cache s'') ''a'' \<noteq> None"
    by (metis order_refl)
  from s''(2) es' have es'': "entries s'' = [(''a'', Obj 1), (''c'', Obj 3)]" by simp
  show ?thesis
    using r f z g v es' c' len' s''(1,3) es''
    by (intro exI[of _ s] conjI exI[of _ s'] exI[of _ s'']) simp_all
qed

section \<open>The fetch-through cache: invariant and steps\<close>

lemma Cache_new_inv:
  assumes "0 < c"
  shows "\<exists>s. (Cache_new c d :: error + ('a, 'e) Cache) = Inr s \<and> cache_inv s \<and> maxDuration s = d \<and>
           capacity (lruCache s) = c \<and> fetchPromises s = [] \<and> entries (lruCache s) = []"
proof -
  from LRUCache_new_inv[OF assms] obtain l :: "'a CacheEntry LRUCache" where
    l: "LRUCache_new c = Inr l" "lru_inv l" "entries l = []" "capacity l = c" by auto
  then show ?thesis by (simp add: Cache_new_def cache_inv_def pending_def)
qed

lemma joinOrFetch_join:
  "map_of (inFlightRequests s) k = Some p \<Longrightarrow> joinOrFetch k s = (Awaits p, s)"
  by (simp add: joinOrFetch_def)

lemma joinOrFetch_start:
  "map_of (inFlightRequests s) k = None \<Longrightarrow>
   joinOrFetch k s =
     (Awaits (length (fetchPromises s)),
      s\<lparr>fetchPromises := fetchPromises s @ [\<lparr> fkey = k, fstate = Pending \<rparr>],
        inFlightRequests := AList.update k (length (fetchPromises s)) (inFlightRequests s)\<rparr>)"
  by (simp add: joinOrFetch_def Let_def)

lemma pending_lruCache_update [simp]: "pending (s\<lparr>lruCache := l\<rparr>) k p = pending s k p"
  by (simp add: pending_def)

lemma pending_start:
  "pending (s\<lparr>fetchPromises := fetchPromises s @ [\<lparr> fkey = k, fstate = Pending \<rparr>],
             inFlightRequests := al\<rparr>) k' q =
     (pending s k' q \<or> (q = length (fetchPromises s) \<and> k' = k))"
  by (auto simp: pending_def nth_append)

lemma cache_inv_start:
  assumes inv: "cache_inv s" and n: "map_of (inFlightRequests s) k = None"
  shows "cache_inv (s\<lparr>fetchPromises := fetchPromises s @ [\<lparr> fkey = k, fstate = Pending \<rparr>],
                      inFlightRequests := AList.update k (length (fetchPromises s)) (inFlightRequests s)\<rparr>)"
proof -
  from inv have l: "lru_inv (lruCache s)" and d: "distinct (map fst (inFlightRequests s))"
    and t: "\<And>k p. (map_of (inFlightRequests s) k = Some p) = pending s k p"
    by (auto simp: cache_inv_def)
  from n t have nk: "\<And>q. \<not> pending s k q" by (metis option.distinct(1))
  have np: "\<And>k'. \<not> pending s k' (length (fetchPromises s))" by (simp add: pending_def)
  show ?thesis
    unfolding cache_inv_def pending_start
    using l d t nk np by (auto simp: distinct_update update_conv')
qed

lemma cache_inv_lruCache:
  "cache_inv s \<Longrightarrow> lru_inv l \<Longrightarrow> cache_inv (s\<lparr>lruCache := l\<rparr>)"
  by (simp add: cache_inv_def)

lemma joinOrFetch_inv:
  assumes "cache_inv s"
  shows "cache_inv (snd (joinOrFetch k s))"
proof (cases "map_of (inFlightRequests s) k")
  case None
  with cache_inv_start[OF assms None] show ?thesis by (simp add: joinOrFetch_start)
next
  case (Some p)
  with assms show ?thesis by (simp add: joinOrFetch_join)
qed

lemma touched_ex:
  assumes inv: "cache_inv s"
  shows "\<exists>l. touched s k l"
proof -
  from inv have li: "lru_inv (lruCache s)" by (simp add: cache_inv_def)
  from lru_get_entries[OF li, of k] show ?thesis
    unfolding touched_def stored_def by blast
qed

lemma touched_unique: "touched s k l \<Longrightarrow> touched s k l' \<Longrightarrow> l' = l"
  by (simp add: touched_def)

lemma touched_stored:
  assumes "touched s k l"
  shows "stored (s\<lparr>lruCache := l\<rparr>) k' = stored s k'"
proof (cases "stored s k")
  case None
  with assms show ?thesis by (simp add: touched_def stored_def)
next
  case (Some v)
  with assms have e: "entries l = filter (\<lambda>e. fst e \<noteq> k) (entries (lruCache s)) @ [(k, v)]"
    by (simp add: touched_def)
  have "stored (s\<lparr>lruCache := l\<rparr>) k' = map_of (filter (\<lambda>e. fst e \<noteq> k) (entries (lruCache s)) @ [(k, v)]) k'"
    by (simp add: stored_def e del: map_of_append)
  also have "\<dots> = stored s k'"
    unfolding map_of_touch using Some by (simp add: stored_def)
  finally show ?thesis .
qed

lemma Cache_get_fresh:
  assumes "touched s k l" and "stored s k = Some (Obj e)" and "now - timestamp e < maxDuration s"
  shows "Cache_get k now s = Inr (Resolved (cvalue e), s\<lparr>lruCache := l\<rparr>)"
  using assms by (simp add: Cache_get_def touched_def Let_def)

lemma Cache_get_stale:
  assumes "touched s k l" and "\<not> is_fresh s k now"
  shows "Cache_get k now s = Inr (joinOrFetch k (s\<lparr>lruCache := l\<rparr>))"
  using assms by (simp add: Cache_get_def touched_def is_fresh_def Let_def split: option.splits any.splits)

lemma is_fresh_entry:
  "stored s k = Some (Obj e) \<Longrightarrow> is_fresh s k now = (now - timestamp e < maxDuration s)"
  by (simp add: is_fresh_def)

lemma is_fresh_cases:
  assumes "is_fresh s k now"
  obtains e where "stored s k = Some (Obj e)" and "now - timestamp e < maxDuration s"
  using assms by (auto simp: is_fresh_def split: option.splits any.splits)

lemma Cache_settle_fail:
  assumes "pending s k p"
  shows "Cache_settle p (Inl err) now s =
           Inr (s\<lparr>fetchPromises := (fetchPromises s)[p := \<lparr> fkey = k, fstate = Rejected err \<rparr>],
                  inFlightRequests := AList.delete k (inFlightRequests s)\<rparr>)"
  using assms by (simp add: Cache_settle_def pending_def Let_def)

lemma Cache_settle_success:
  assumes "pending s k p"
    and "LRUCache_set k (Obj \<lparr> cvalue = v, timestamp = now \<rparr>) (lruCache s) = Inr l"
  shows "Cache_settle p (Inr v) now s =
           Inr (s\<lparr>lruCache := l,
                  fetchPromises := (fetchPromises s)[p := \<lparr> fkey = k, fstate = Fulfilled v \<rparr>],
                  inFlightRequests := AList.delete k (inFlightRequests s)\<rparr>)"
  using assms by (simp add: Cache_settle_def pending_def Let_def)

lemma Cache_settle_noop:
  assumes "\<And>k. \<not> pending s k p"
  shows "Cache_settle p outcome now s = Inr s"
  using assms by (auto simp: Cache_settle_def pending_def)

lemma pending_settle:
  assumes "pending s k p" and "st \<noteq> Pending"
  shows "pending (s\<lparr>lruCache := l,
                    fetchPromises := (fetchPromises s)[p := \<lparr> fkey = k, fstate = st \<rparr>],
                    inFlightRequests := al\<rparr>) k' q = (pending s k' q \<and> q \<noteq> p)"
  using assms by (auto simp: pending_def nth_list_update)

lemma cache_inv_settle:
  assumes inv: "cache_inv s" and p: "pending s k p" and st: "st \<noteq> Pending" and l: "lru_inv l"
  shows "cache_inv (s\<lparr>lruCache := l,
                      fetchPromises := (fetchPromises s)[p := \<lparr> fkey = k, fstate = st \<rparr>],
                      inFlightRequests := AList.delete k (inFlightRequests s)\<rparr>)"
proof -
  from inv have d: "distinct (map fst (inFlightRequests s))"
    and t: "\<And>k p. (map_of (inFlightRequests s) k = Some p) = pending s k p"
    by (auto simp: cache_inv_def)
  have uniq: "q = p" if "pending s k q" for q
    using that p t[of k q] t[of k p] by simp
  have other: "k' = k" if "pending s k' p" for k'
    using that p by (simp add: pending_def)
  have tab: "(map_of (AList.delete k (inFlightRequests s)) k' = Some q) = (pending s k' q \<and> q \<noteq> p)"
    for k' q
  proof (cases "k' = k")
    case True
    then have "map_of (AList.delete k (inFlightRequests s)) k' = None" by (simp add: delete_conv')
    with True uniq[of q] show ?thesis by auto
  next
    case False
    then have "map_of (AList.delete k (inFlightRequests s)) k' = map_of (inFlightRequests s) k'"
      by (simp add: delete_conv')
    with False other[of k'] t[of k' q] show ?thesis by auto
  qed
  have dd: "distinct (map fst (AList.delete k (inFlightRequests s)))"
    using d by (rule distinct_delete)
  show ?thesis
    unfolding cache_inv_def pending_settle[OF p st]
    using l dd tab by simp
qed

lemma cache_inv_same_lru:
  assumes inv: "cache_inv s" and p: "pending s k p" and st: "st \<noteq> Pending"
  shows "cache_inv (s\<lparr>fetchPromises := (fetchPromises s)[p := \<lparr> fkey = k, fstate = st \<rparr>],
                      inFlightRequests := AList.delete k (inFlightRequests s)\<rparr>)"
proof -
  from inv have "lru_inv (lruCache s)" by (simp add: cache_inv_def)
  from cache_inv_settle[OF inv p st this] show ?thesis by simp
qed

lemma Cache_settle_inv:
  assumes inv: "cache_inv s"
  shows "\<exists>s'. Cache_settle p outcome now s = Inr s' \<and> cache_inv s' \<and>
           maxDuration s' = maxDuration s \<and> capacity (lruCache s') = capacity (lruCache s)"
proof (cases "\<exists>k. pending s k p")
  case False
  then have "Cache_settle p outcome now s = Inr s" by (intro Cache_settle_noop) auto
  with inv show ?thesis by simp
next
  case True
  then obtain k where p: "pending s k p" by auto
  show ?thesis
  proof (cases outcome)
    case (Inl err)
    from cache_inv_same_lru[OF inv p, of "Rejected err"] Cache_settle_fail[OF p, of err now] Inl
    show ?thesis by simp
  next
    case (Inr v)
    from inv have li: "lru_inv (lruCache s)" by (simp add: cache_inv_def)
    from lru_set_entries[OF li, of k "Obj \<lparr> cvalue = v, timestamp = now \<rparr>"] obtain l where
      l: "LRUCache_set k (Obj \<lparr> cvalue = v, timestamp = now \<rparr>) (lruCache s) = Inr l"
        "lru_inv l" "capacity l = capacity (lruCache s)" by auto
    from cache_inv_settle[OF inv p _ l(2), of "Fulfilled v"] Cache_settle_success[OF p l(1)] Inr l(3)
    show ?thesis by simp
  qed
qed

lemma Cache_get_inv:
  assumes inv: "cache_inv s"
  shows "\<exists>r s'. Cache_get k now s = Inr (r, s') \<and> cache_inv s' \<and>
           maxDuration s' = maxDuration s \<and> capacity (lruCache s') = capacity (lruCache s)"
proof -
  from touched_ex[OF inv, of k] obtain l where t: "touched s k l" by auto
  then have l: "lru_inv l" "capacity l = capacity (lruCache s)" by (auto simp: touched_def)
  let ?s1 = "s\<lparr>lruCache := l\<rparr>"
  have i1: "cache_inv ?s1" using inv l(1) by (rule cache_inv_lruCache)
  show ?thesis
  proof (cases "is_fresh s k now")
    case True
    then obtain e where "stored s k = Some (Obj e)" "now - timestamp e < maxDuration s"
      by (rule is_fresh_cases)
    from Cache_get_fresh[OF t this] i1 l(2) show ?thesis by simp
  next
    case False
    obtain r s' where j: "joinOrFetch k ?s1 = (r, s')" by (cases "joinOrFetch k ?s1")
    from joinOrFetch_inv[OF i1, of k] j have "cache_inv s'" by simp
    moreover from j l(2) have "maxDuration s' = maxDuration s"
      "capacity (lruCache s') = capacity (lruCache s)"
      by (auto simp: joinOrFetch_def Let_def split: option.splits)
    ultimately show ?thesis using Cache_get_stale[OF t False] j by simp
  qed
qed

lemma step_inv:
  assumes inv: "cache_inv s"
  shows "\<exists>r s'. step ev s = Inr (r, s') \<and> cache_inv s' \<and>
           maxDuration s' = maxDuration s \<and> capacity (lruCache s') = capacity (lruCache s)"
proof (cases ev)
  case (Get k now)
  with Cache_get_inv[OF inv, of k now] show ?thesis by auto
next
  case (Settle p outcome now)
  with Cache_settle_inv[OF inv, of p outcome now] show ?thesis by auto
qed

lemma run_inv:
  assumes inv: "cache_inv s"
  shows "\<exists>rs s'. run evs s = Inr (rs, s') \<and> cache_inv s' \<and> length rs = length evs \<and>
           maxDuration s' = maxDuration s \<and> capacity (lruCache s') = capacity (lruCache s)"
  using inv
proof (induction evs arbitrary: s)
  case Nil
  then show ?case by simp
next
  case (Cons ev evs)
  from step_inv[OF Cons.prems, of ev] obtain r s1 where
    s1: "step ev s = Inr (r, s1)" "cache_inv s1" "maxDuration s1 = maxDuration s"
      "capacity (lruCache s1) = capacity (lruCache s)" by auto
  from Cons.IH[OF s1(2)] obtain rs s' where
    "run evs s1 = Inr (rs, s')" "cache_inv s'" "length rs = length evs"
    "maxDuration s' = maxDuration s1" "capacity (lruCache s') = capacity (lruCache s1)" by auto
  with s1 show ?case by auto
qed

lemma cache_run_pos: "cache_run c d evs = Inr (rs, s) \<Longrightarrow> 0 < c"
  by (auto simp: cache_run_def Cache_new_def LRUCache_new_def split: if_splits)

lemma cache_run_total:
  assumes "0 < c"
  shows "\<exists>rs s. (cache_run c d evs :: error + ('a get_result option list \<times> ('a, 'e) Cache)) = Inr (rs, s) \<and>
           cache_inv s \<and> maxDuration s = d \<and> capacity (lruCache s) = c"
proof -
  from Cache_new_inv[OF assms, of d] obtain s0 :: "('a, 'e) Cache" where
    s0: "Cache_new c d = Inr s0" "cache_inv s0" "maxDuration s0 = d" "capacity (lruCache s0) = c"
    by blast
  from run_inv[OF s0(2), of evs] s0 show ?thesis by (auto simp: cache_run_def)
qed

lemma cache_run_inv:
  assumes "cache_run c d evs = Inr (rs, s)"
  shows "cache_inv s" and "maxDuration s = d" and "capacity (lruCache s) = c"
  using cache_run_total[OF cache_run_pos[OF assms], of d evs] assms by auto

lemma cache_inv_table:
  "cache_inv s \<Longrightarrow> (map_of (inFlightRequests s) k = Some p) = pending s k p"
  by (simp add: cache_inv_def)

lemma pending_unique:
  assumes "cache_inv s" and "pending s k p" and "pending s k q"
  shows "q = p"
  using assms cache_inv_table[OF assms(1), of k p] cache_inv_table[OF assms(1), of k q] by simp

lemma fetchLog_lruCache_update [simp]: "fetchLog (s\<lparr>lruCache := l\<rparr>) = fetchLog s"
  by (simp add: fetchLog_def)

lemma fetchLog_settle:
  assumes "pending s k p"
  shows "fetchLog (s\<lparr>lruCache := l,
                     fetchPromises := (fetchPromises s)[p := \<lparr> fkey = k, fstate = st \<rparr>],
                     inFlightRequests := al\<rparr>) = fetchLog s"
proof -
  from assms have "k = map fkey (fetchPromises s) ! p" by (simp add: pending_def)
  then have "(map fkey (fetchPromises s))[p := k] = map fkey (fetchPromises s)"
    by (simp only: list_update_id)
  then show ?thesis by (simp add: fetchLog_def map_update)
qed

lemma Cache_settle_pending:
  assumes inv: "cache_inv s" and p: "pending s k p"
  shows "\<exists>l. (case outcome of
                Inl err \<Rightarrow> l = lruCache s
              | Inr v \<Rightarrow> LRUCache_set k (Obj \<lparr> cvalue = v, timestamp = now \<rparr>) (lruCache s) = Inr l \<and>
                         entries l =
                           (if stored s k \<noteq> None then filter (\<lambda>e. fst e \<noteq> k) (entries (lruCache s))
                            else if int (length (entries (lruCache s))) \<ge> capacity (lruCache s)
                                 then tl (entries (lruCache s))
                            else entries (lruCache s)) @ [(k, Obj \<lparr> cvalue = v, timestamp = now \<rparr>)]) \<and>
              lru_inv l \<and> capacity l = capacity (lruCache s) \<and>
              Cache_settle p outcome now s =
                Inr (s\<lparr>lruCache := l,
                       fetchPromises := (fetchPromises s)[p := \<lparr> fkey = k, fstate = settled outcome \<rparr>],
                       inFlightRequests := AList.delete k (inFlightRequests s)\<rparr>)"
proof (cases outcome)
  case (Inl err)
  from inv have "lru_inv (lruCache s)" by (simp add: cache_inv_def)
  with Cache_settle_fail[OF p, of err now] Inl show ?thesis by simp
next
  case (Inr v)
  from inv have li: "lru_inv (lruCache s)" by (simp add: cache_inv_def)
  from lru_set_entries[OF li, of k "Obj \<lparr> cvalue = v, timestamp = now \<rparr>"] obtain l where
    l: "LRUCache_set k (Obj \<lparr> cvalue = v, timestamp = now \<rparr>) (lruCache s) = Inr l"
      "lru_inv l" "capacity l = capacity (lruCache s)"
      "entries l =
         (if map_of (entries (lruCache s)) k \<noteq> None then filter (\<lambda>e. fst e \<noteq> k) (entries (lruCache s))
          else if int (length (entries (lruCache s))) \<ge> capacity (lruCache s)
               then tl (entries (lruCache s))
          else entries (lruCache s)) @ [(k, Obj \<lparr> cvalue = v, timestamp = now \<rparr>)]" by blast
  with Cache_settle_success[OF p l(1)] Inr show ?thesis
    by (intro exI[of _ l]) (simp add: stored_def)
qed

lemma step_keeps_pending:
  assumes inv: "cache_inv s" and p: "pending s k p" and ns: "\<not> settles p ev"
    and st: "step ev s = Inr (r, s')"
  shows "pending s' k p \<and> count_list (fetchLog s') k = count_list (fetchLog s) k \<and>
         (\<forall>t. ev = Get k t \<and> \<not> is_fresh s k t \<longrightarrow> r = Some (Awaits p))"
proof (cases ev)
  case (Get k' now)
  from touched_ex[OF inv, of k'] obtain l where t: "touched s k' l" by auto
  let ?s1 = "s\<lparr>lruCache := l\<rparr>"
  from p inv have tab: "map_of (inFlightRequests s) k = Some p" by (simp add: cache_inv_table)
  show ?thesis
  proof (cases "is_fresh s k' now")
    case True
    then obtain e where "stored s k' = Some (Obj e)" "now - timestamp e < maxDuration s"
      by (rule is_fresh_cases)
    from Cache_get_fresh[OF t this] st Get have "s' = ?s1" by simp
    with p True Get show ?thesis by auto
  next
    case False
    note g = Cache_get_stale[OF t False]
    show ?thesis
    proof (cases "map_of (inFlightRequests s) k'")
      case None
      then have ne: "k' \<noteq> k" using tab by auto
      from None have "joinOrFetch k' ?s1 =
         (Awaits (length (fetchPromises s)),
          ?s1\<lparr>fetchPromises := fetchPromises s @ [\<lparr> fkey = k', fstate = Pending \<rparr>],
               inFlightRequests := AList.update k' (length (fetchPromises s)) (inFlightRequests s)\<rparr>)"
        by (simp add: joinOrFetch_start)
      with g st Get have s': "s' = ?s1\<lparr>fetchPromises := fetchPromises s @ [\<lparr> fkey = k', fstate = Pending \<rparr>],
               inFlightRequests := AList.update k' (length (fetchPromises s)) (inFlightRequests s)\<rparr>"
        by simp
      have "pending s' k p" using p unfolding s' by (simp add: pending_def nth_append)
      moreover have "count_list (fetchLog s') k = count_list (fetchLog s) k"
        unfolding s' using ne by (simp add: fetchLog_def)
      ultimately show ?thesis using Get ne by simp
    next
      case (Some q)
      then have "joinOrFetch k' ?s1 = (Awaits q, ?s1)" by (simp add: joinOrFetch_join)
      with g st Get have s': "s' = ?s1" and r: "r = Some (Awaits q)" by simp_all
      have "k' = k \<longrightarrow> q = p" using Some tab by auto
      with p s' r Get show ?thesis by auto
    qed
  qed
next
  case (Settle q outcome now)
  with ns have qp: "q \<noteq> p" by simp
  show ?thesis
  proof (cases "\<exists>k'. pending s k' q")
    case False
    then have "Cache_settle q outcome now s = Inr s" by (intro Cache_settle_noop) auto
    with st Settle p show ?thesis by simp
  next
    case True
    then obtain k' where q: "pending s k' q" by auto
    from Cache_settle_pending[OF inv q, where outcome=outcome and now=now] st Settle obtain l where
      s': "s' = s\<lparr>lruCache := l,
                   fetchPromises := (fetchPromises s)[q := \<lparr> fkey = k', fstate = settled outcome \<rparr>],
                   inFlightRequests := AList.delete k' (inFlightRequests s)\<rparr>"
      by auto
    have "pending s' k p" using p qp unfolding s' by (simp add: pending_def)
    moreover have "fetchLog s' = fetchLog s" unfolding s' using q by (rule fetchLog_settle)
    ultimately show ?thesis using Settle by simp
  qed
qed

lemma run_keeps_pending:
  assumes "cache_inv s" and "pending s k p" and "\<forall>ev\<in>set evs. \<not> settles p ev"
  shows "\<exists>rs s'. run evs s = Inr (rs, s') \<and> length rs = length evs \<and> cache_inv s' \<and>
           pending s' k p \<and> count_list (fetchLog s') k = count_list (fetchLog s) k \<and>
           (\<forall>i<length evs. \<forall>t ri si.
               evs ! i = Get k t \<and> run (take i evs) s = Inr (ri, si) \<and> \<not> is_fresh si k t
               \<longrightarrow> rs ! i = Some (Awaits p))"
  using assms
proof (induction evs arbitrary: s)
  case Nil
  then show ?case by simp
next
  case (Cons ev evs)
  from step_inv[OF Cons.prems(1), of ev] obtain r s1 where
    s1: "step ev s = Inr (r, s1)" "cache_inv s1" by auto
  from Cons.prems have ns: "\<not> settles p ev" and ns': "\<forall>ev\<in>set evs. \<not> settles p ev" by auto
  from step_keeps_pending[OF Cons.prems(1,2) ns s1(1)] have
    k1: "pending s1 k p" "count_list (fetchLog s1) k = count_list (fetchLog s) k"
    and first: "\<And>t. ev = Get k t \<Longrightarrow> \<not> is_fresh s k t \<Longrightarrow> r = Some (Awaits p)"
    by auto
  from Cons.IH[OF s1(2) k1(1) ns'] obtain rs s' where
    ih: "run evs s1 = Inr (rs, s')" "length rs = length evs" "cache_inv s'" "pending s' k p"
      "count_list (fetchLog s') k = count_list (fetchLog s1) k"
    and ihi: "\<And>i t ri si. i < length evs \<Longrightarrow> evs ! i = Get k t \<Longrightarrow>
               run (take i evs) s1 = Inr (ri, si) \<Longrightarrow> \<not> is_fresh si k t \<Longrightarrow>
               rs ! i = Some (Awaits p)"
    by blast
  have r: "run (ev # evs) s = Inr (r # rs, s')" using s1(1) ih(1) by simp
  have idx: "(r # rs) ! i = Some (Awaits p)"
    if "i < length (ev # evs)" "(ev # evs) ! i = Get k t"
      "run (take i (ev # evs)) s = Inr (ri, si)" "\<not> is_fresh si k t" for i t ri si
  proof (cases i)
    case 0
    with that have "ev = Get k t" "si = s" by simp_all
    with first that(4) 0 show ?thesis by simp
  next
    case (Suc j)
    with that(3) s1(1) obtain rj where "run (take j evs) s1 = Inr (rj, si)"
      by (auto split: sum.splits)
    with ihi[of j t rj si] that Suc show ?thesis by simp
  qed
  show ?case
  proof (intro exI conjI)
    show "run (ev # evs) s = Inr (r # rs, s')" by fact
    show "length (r # rs) = length (ev # evs)" using ih(2) by simp
    show "cache_inv s'" by fact
    show "pending s' k p" by fact
    show "count_list (fetchLog s') k = count_list (fetchLog s) k" using ih(5) k1(2) by simp
    show "\<forall>i<length (ev # evs). \<forall>t ri si.
            (ev # evs) ! i = Get k t \<and> run (take i (ev # evs)) s = Inr (ri, si) \<and> \<not> is_fresh si k t
            \<longrightarrow> (r # rs) ! i = Some (Awaits p)"
      using idx by blast
  qed
qed

lemma step_settled_stable:
  assumes inv: "cache_inv s" and p: "p < length (fetchPromises s)"
    and st: "fstate (fetchPromises s ! p) \<noteq> Pending" and step: "step ev s = Inr (r, s')"
  shows "p < length (fetchPromises s') \<and> fetchPromises s' ! p = fetchPromises s ! p"
proof (cases ev)
  case (Get k now)
  from touched_ex[OF inv, of k] obtain l where t: "touched s k l" by auto
  show ?thesis
  proof (cases "is_fresh s k now")
    case True
    then obtain e where "stored s k = Some (Obj e)" "now - timestamp e < maxDuration s"
      by (rule is_fresh_cases)
    from Cache_get_fresh[OF t this] step Get p show ?thesis by auto
  next
    case False
    from Cache_get_stale[OF t False] step Get p show ?thesis
      by (auto simp: joinOrFetch_def Let_def nth_append split: option.splits)
  qed
next
  case (Settle q outcome now)
  show ?thesis
  proof (cases "\<exists>k'. pending s k' q")
    case False
    then have "Cache_settle q outcome now s = Inr s" by (intro Cache_settle_noop) auto
    with step Settle p show ?thesis by simp
  next
    case True
    then obtain k' where q: "pending s k' q" by auto
    with st have qp: "q \<noteq> p" by (auto simp: pending_def)
    from Cache_settle_pending[OF inv q, where outcome=outcome and now=now] step Settle obtain l where
      s': "s' = s\<lparr>lruCache := l,
                   fetchPromises := (fetchPromises s)[q := \<lparr> fkey = k', fstate = settled outcome \<rparr>],
                   inFlightRequests := AList.delete k' (inFlightRequests s)\<rparr>"
      by auto
    show ?thesis unfolding s' using p qp by simp
  qed
qed

lemma run_settled_stable:
  assumes "cache_inv s" and "p < length (fetchPromises s)"
    and "fstate (fetchPromises s ! p) \<noteq> Pending" and "run evs s = Inr (rs, s')"
  shows "p < length (fetchPromises s') \<and> fetchPromises s' ! p = fetchPromises s ! p"
  using assms
proof (induction evs arbitrary: s rs)
  case Nil
  then show ?case by simp
next
  case (Cons ev evs)
  from step_inv[OF Cons.prems(1), of ev] obtain r s1 where
    s1: "step ev s = Inr (r, s1)" "cache_inv s1" by auto
  from step_settled_stable[OF Cons.prems(1,2,3) s1(1)] have
    k1: "p < length (fetchPromises s1)" "fetchPromises s1 ! p = fetchPromises s ! p" by auto
  from Cons.prems(4) s1(1) obtain rs1 where r1: "run evs s1 = Inr (rs1, s')"
    by (auto split: sum.splits)
  from Cons.IH[OF s1(2) k1(1) _ r1] k1(2) Cons.prems(3) show ?case by simp
qed

lemma Cache_get_start:
  assumes inv: "cache_inv s" and stale: "\<not> is_fresh s k now"
    and none: "map_of (inFlightRequests s) k = None"
  shows "\<exists>l s'. touched s k l \<and>
           s' = s\<lparr>lruCache := l,
                  fetchPromises := fetchPromises s @ [\<lparr> fkey = k, fstate = Pending \<rparr>],
                  inFlightRequests := AList.update k (length (fetchPromises s)) (inFlightRequests s)\<rparr> \<and>
           Cache_get k now s = Inr (Awaits (length (fetchPromises s)), s') \<and>
           cache_inv s' \<and> pending s' k (length (fetchPromises s)) \<and>
           fetchLog s' = fetchLog s @ [k]"
proof -
  from touched_ex[OF inv, of k] obtain l where t: "touched s k l" by auto
  then have l: "lru_inv l" by (simp add: touched_def)
  let ?s1 = "s\<lparr>lruCache := l\<rparr>"
  let ?s' = "s\<lparr>lruCache := l,
                  fetchPromises := fetchPromises s @ [\<lparr> fkey = k, fstate = Pending \<rparr>],
                  inFlightRequests := AList.update k (length (fetchPromises s)) (inFlightRequests s)\<rparr>"
  have i1: "cache_inv ?s1" using inv l by (rule cache_inv_lruCache)
  from none have n1: "map_of (inFlightRequests ?s1) k = None" by simp
  have j: "joinOrFetch k ?s1 = (Awaits (length (fetchPromises s)), ?s')"
    using joinOrFetch_start[OF n1] by simp
  have g: "Cache_get k now s = Inr (Awaits (length (fetchPromises s)), ?s')"
    using Cache_get_stale[OF t stale] j by simp
  have "cache_inv ?s'" using cache_inv_start[OF i1 n1] by simp
  moreover have "pending ?s' k (length (fetchPromises s))" by (simp add: pending_def)
  moreover have "fetchLog ?s' = fetchLog s @ [k]" by (simp add: fetchLog_def)
  ultimately show ?thesis using t g by blast
qed


lemma settled_not_Pending: "settled outcome \<noteq> Pending"
  by (cases outcome) auto

lemma Cache_settle_result:
  assumes inv: "cache_inv s" and p: "pending s k p"
  shows "\<exists>s'. Cache_settle p outcome now s = Inr s' \<and> cache_inv s' \<and>
           p < length (fetchPromises s') \<and>
           fetchPromises s' ! p = \<lparr> fkey = k, fstate = settled outcome \<rparr> \<and>
           map_of (inFlightRequests s') k = None \<and> (\<forall>q. \<not> pending s' k q) \<and>
           fetchLog s' = fetchLog s \<and> maxDuration s' = maxDuration s \<and>
           length (fetchPromises s') = length (fetchPromises s)"
proof -
  from Cache_settle_pending[OF inv p, where outcome=outcome and now=now] obtain l where
    l: "lru_inv l"
    and r: "Cache_settle p outcome now s =
                Inr (s\<lparr>lruCache := l,
                       fetchPromises := (fetchPromises s)[p := \<lparr> fkey = k, fstate = settled outcome \<rparr>],
                       inFlightRequests := AList.delete k (inFlightRequests s)\<rparr>)"
    by blast
  let ?s' = "s\<lparr>lruCache := l,
               fetchPromises := (fetchPromises s)[p := \<lparr> fkey = k, fstate = settled outcome \<rparr>],
               inFlightRequests := AList.delete k (inFlightRequests s)\<rparr>"
  have i': "cache_inv ?s'" using cache_inv_settle[OF inv p settled_not_Pending l] .
  from p have pl: "p < length (fetchPromises s)" by (simp add: pending_def)
  have tab: "map_of (inFlightRequests ?s') k = None" by (simp add: delete_conv')
  have np: "\<not> pending ?s' k q" for q
    using cache_inv_table[OF i', of k q] tab by simp
  have "fetchLog ?s' = fetchLog s" using p by (rule fetchLog_settle)
  with r i' pl tab np show ?thesis by (intro exI[of _ ?s']) simp
qed

lemma joinOrFetch_lruCache:
  "joinOrFetch k (s\<lparr>lruCache := l\<rparr>) = (fst (joinOrFetch k s), (snd (joinOrFetch k s))\<lparr>lruCache := l\<rparr>)"
  by (simp add: joinOrFetch_def Let_def split: option.splits)

lemma Cache_get_absent:
  assumes inv: "cache_inv s" and absent: "stored s k = None"
  shows "Cache_get k now s = Inr (joinOrFetch k s)"
proof -
  from inv have li: "lru_inv (lruCache s)" by (simp add: cache_inv_def)
  from absent have "map_of (cache (lruCache s)) k = None"
    using lru_inv_facts(5)[OF li, of k] by (simp add: stored_def)
  then have "LRUCache_get k (lruCache s) = Inr (None, lruCache s)" by (rule LRUCache_get_miss)
  then show ?thesis by (simp add: Cache_get_def)
qed

section \<open>Properties of the fetch-through cache\<close>

text \<open>
  Claim C1. In every state \<open>s\<close> the cache reaches, no key has two pending fetches and
  \<^verbatim>\<open>inFlightRequests\<close> holds one promise per key. If \<open>k\<close> is absent or expired in \<open>s\<close>
  and has no request in flight, let \<^verbatim>\<open>get(k)\<close> be called, followed by any events
  \<open>evs\<close> that do not settle the fetch it starts (further calls of \<^verbatim>\<open>get\<close> for this and other
  keys, settlements of other fetches). Then the first call starts a fetch \<open>p\<close>; every later
  call of \<^verbatim>\<open>get(k)\<close> issued while \<open>k\<close> is absent or expired returns that same promise
  \<open>p\<close>; the fetcher has been invoked for \<open>k\<close> exactly once more than before; \<open>p\<close> is the only
  pending fetch for \<open>k\<close>; and when the fetch settles, \<open>p\<close> takes that outcome, value or
  failure, once and for good, so every caller holding \<open>p\<close> observes the same outcome.
\<close>

theorem single_flight:
  assumes reach: "cache_run c d evs0 = Inr (rs0, s)"
  shows "(\<forall>k' q q'. pending s k' q \<and> pending s k' q' \<longrightarrow> q = q') \<and>
         distinct (map fst (inFlightRequests s)) \<and>
         (\<not> is_fresh s k t0 \<and> map_of (inFlightRequests s) k = None \<and>
          (\<forall>ev\<in>set evs. \<not> settles (length (fetchPromises s)) ev) \<longrightarrow>
           (\<exists>rs s'. run (Get k t0 # evs) s = Inr (rs, s') \<and> length rs = Suc (length evs) \<and>
              rs ! 0 = Some (Awaits (length (fetchPromises s))) \<and>
              (\<forall>i<length evs. \<forall>t ri si.
                  evs ! i = Get k t \<and> run (Get k t0 # take i evs) s = Inr (ri, si) \<and> \<not> is_fresh si k t
                  \<longrightarrow> rs ! Suc i = Some (Awaits (length (fetchPromises s)))) \<and>
              count_list (fetchLog s') k = Suc (count_list (fetchLog s) k) \<and>
              (\<forall>q. pending s' k q = (q = length (fetchPromises s))) \<and>
              (\<forall>outcome t. \<exists>s''.
                  Cache_settle (length (fetchPromises s)) outcome t s' = Inr s'' \<and>
                  fstate (fetchPromises s'' ! length (fetchPromises s)) = settled outcome \<and>
                  map_of (inFlightRequests s'') k = None \<and>
                  (\<forall>evs2 rs2 s3. run evs2 s'' = Inr (rs2, s3) \<longrightarrow>
                      fstate (fetchPromises s3 ! length (fetchPromises s)) = settled outcome))))"
proof (intro conjI impI)
  from cache_run_inv[OF reach] have inv: "cache_inv s" by simp
  show "\<forall>k' q q'. pending s k' q \<and> pending s k' q' \<longrightarrow> q = q'"
    using pending_unique[OF inv] by blast
  show "distinct (map fst (inFlightRequests s))" using inv by (simp add: cache_inv_def)
  let ?p = "length (fetchPromises s)"
  assume a: "\<not> is_fresh s k t0 \<and> map_of (inFlightRequests s) k = None \<and>
          (\<forall>ev\<in>set evs. \<not> settles ?p ev)"
  from a have a1: "\<not> is_fresh s k t0" and a2: "map_of (inFlightRequests s) k = None" by simp_all
  from Cache_get_start[OF inv a1 a2] obtain l s1 where
    "touched s k l"
    and g: "Cache_get k t0 s = Inr (Awaits ?p, s1)" and i1: "cache_inv s1"
    and p1: "pending s1 k ?p" and f1: "fetchLog s1 = fetchLog s @ [k]" by metis
  from a have ns: "\<forall>ev\<in>set evs. \<not> settles ?p ev" by simp
  from run_keeps_pending[OF i1 p1 ns] obtain rs s' where
    r: "run evs s1 = Inr (rs, s')" and len: "length rs = length evs" and i': "cache_inv s'"
    and p': "pending s' k ?p" and c: "count_list (fetchLog s') k = count_list (fetchLog s1) k"
    and idx: "\<And>i t ri si. i < length evs \<Longrightarrow> evs ! i = Get k t \<Longrightarrow>
               run (take i evs) s1 = Inr (ri, si) \<Longrightarrow> \<not> is_fresh si k t \<Longrightarrow>
               rs ! i = Some (Awaits ?p)"
    by blast
  have st: "step (Get k t0) s = Inr (Some (Awaits ?p), s1)" using g by simp
  have run: "run (Get k t0 # evs) s = Inr (Some (Awaits ?p) # rs, s')" using st r by simp
  have idx': "(Some (Awaits ?p) # rs) ! Suc i = Some (Awaits ?p)"
    if "i < length evs" "evs ! i = Get k t" "run (Get k t0 # take i evs) s = Inr (ri, si)"
      "\<not> is_fresh si k t" for i t ri si
  proof -
    from that(3) st obtain rj where "run (take i evs) s1 = Inr (rj, si)"
      by (auto split: sum.splits)
    from idx[OF that(1,2) this that(4)] show ?thesis by simp
  qed
  have only: "pending s' k q = (q = ?p)" for q
    using pending_unique[OF i' p', of q] p' by auto
  have settle: "\<exists>s''. Cache_settle ?p outcome t s' = Inr s'' \<and>
                  fstate (fetchPromises s'' ! ?p) = settled outcome \<and>
                  map_of (inFlightRequests s'') k = None \<and>
                  (\<forall>evs2 rs2 s3. run evs2 s'' = Inr (rs2, s3) \<longrightarrow>
                      fstate (fetchPromises s3 ! ?p) = settled outcome)" for outcome t
  proof -
    from Cache_settle_result[OF i' p', of outcome t] obtain s'' where
      s'': "Cache_settle ?p outcome t s' = Inr s''" "cache_inv s''"
        "?p < length (fetchPromises s'')"
        "fetchPromises s'' ! ?p = \<lparr> fkey = k, fstate = settled outcome \<rparr>"
        "map_of (inFlightRequests s'') k = None" by blast
    have np: "fstate (fetchPromises s'' ! ?p) \<noteq> Pending" using s''(4) settled_not_Pending by simp
    have "fstate (fetchPromises s3 ! ?p) = settled outcome"
      if "run evs2 s'' = Inr (rs2, s3)" for evs2 rs2 s3
      using run_settled_stable[OF s''(2,3) np that] s''(4) by simp
    with s'' show ?thesis by (intro exI[of _ s'']) simp
  qed
  show "\<exists>rs s'. run (Get k t0 # evs) s = Inr (rs, s') \<and> length rs = Suc (length evs) \<and>
              rs ! 0 = Some (Awaits ?p) \<and>
              (\<forall>i<length evs. \<forall>t ri si.
                  evs ! i = Get k t \<and> run (Get k t0 # take i evs) s = Inr (ri, si) \<and> \<not> is_fresh si k t
                  \<longrightarrow> rs ! Suc i = Some (Awaits ?p)) \<and>
              count_list (fetchLog s') k = Suc (count_list (fetchLog s) k) \<and>
              (\<forall>q. pending s' k q = (q = ?p)) \<and>
              (\<forall>outcome t. \<exists>s''.
                  Cache_settle ?p outcome t s' = Inr s'' \<and>
                  fstate (fetchPromises s'' ! ?p) = settled outcome \<and>
                  map_of (inFlightRequests s'') k = None \<and>
                  (\<forall>evs2 rs2 s3. run evs2 s'' = Inr (rs2, s3) \<longrightarrow>
                      fstate (fetchPromises s3 ! ?p) = settled outcome))"
  proof (intro exI conjI)
    show "run (Get k t0 # evs) s = Inr (Some (Awaits ?p) # rs, s')" by fact
    show "length (Some (Awaits ?p) # rs) = Suc (length evs)" using len by simp
    show "(Some (Awaits ?p) # rs) ! 0 = Some (Awaits ?p)" by simp
    show "\<forall>i<length evs. \<forall>t ri si.
                  evs ! i = Get k t \<and> run (Get k t0 # take i evs) s = Inr (ri, si) \<and> \<not> is_fresh si k t
                  \<longrightarrow> (Some (Awaits ?p) # rs) ! Suc i = Some (Awaits ?p)"
      using idx' by blast
    show "count_list (fetchLog s') k = Suc (count_list (fetchLog s) k)" using c f1 by simp
    show "\<forall>q. pending s' k q = (q = ?p)" using only by blast
    show "\<forall>outcome t. \<exists>s''.
                  Cache_settle ?p outcome t s' = Inr s'' \<and>
                  fstate (fetchPromises s'' ! ?p) = settled outcome \<and>
                  map_of (inFlightRequests s'') k = None \<and>
                  (\<forall>evs2 rs2 s3. run evs2 s'' = Inr (rs2, s3) \<longrightarrow>
                      fstate (fetchPromises s3 ! ?p) = settled outcome)"
      using settle by blast
  qed
qed

theorem single_flight_witness:
  "\<exists>rs0 s. cache_run 50 60000 ([] :: (nat, string) event list) = Inr (rs0, s) \<and>
      \<not> is_fresh s ''x'' 0 \<and> map_of (inFlightRequests s) ''x'' = None \<and>
      list_all (\<lambda>ev. \<not> settles (length (fetchPromises s)) ev) [Get ''x'' 0, Get ''y'' 0, Get ''x'' 0] \<and>
      (\<exists>s'. run [Get ''x'' 0, Get ''x'' 0, Get ''y'' 0, Get ''x'' 0] s =
               Inr ([Some (Awaits 0), Some (Awaits 0), Some (Awaits 1), Some (Awaits 0)], s') \<and>
            fetchLog s' = [''x'', ''y''] \<and> count_list (fetchLog s') ''x'' = 1 \<and>
            pending s' ''x'' 0 \<and>
            (\<exists>s''. Cache_settle 0 (Inl ''boom'') 7 s' = Inr s'' \<and>
                   fstate (fetchPromises s'' ! 0) = Rejected ''boom'' \<and>
                   map_of (inFlightRequests s'') ''x'' = None))"
proof -
  let ?evs = "[Get ''x'' 0, Get ''y'' 0, Get ''x'' 0] :: (nat, string) event list"
  have ev1: "case cache_run 50 60000 ([] :: (nat, string) event list) of
              Inl e \<Rightarrow> False
            | Inr (rs0, s) \<Rightarrow>
                \<not> is_fresh s ''x'' 0 \<and> map_of (inFlightRequests s) ''x'' = None \<and>
                length (fetchPromises s) = 0"
    by code_simp
  have ev2: "case cache_run 50 60000 ([] :: (nat, string) event list) of
              Inl e \<Rightarrow> False
            | Inr (rs0, s) \<Rightarrow>
                (case run (Get ''x'' 0 # ?evs) s of
                   Inl e \<Rightarrow> False
                 | Inr (rs, s') \<Rightarrow>
                     rs = [Some (Awaits 0), Some (Awaits 0), Some (Awaits 1), Some (Awaits 0)] \<and>
                     fetchLog s' = [''x'', ''y''])"
    by code_simp
  from ev1 obtain rs0 s where r: "cache_run 50 60000 ([] :: (nat, string) event list) = Inr (rs0, s)"
    and f: "\<not> is_fresh s ''x'' 0" "map_of (inFlightRequests s) ''x'' = None"
      "length (fetchPromises s) = 0"
    by (cases "cache_run 50 60000 ([] :: (nat, string) event list)") auto
  from ev2 have e2: "case run (Get ''x'' 0 # ?evs) s of
                   Inl e \<Rightarrow> False
                 | Inr (rs, s') \<Rightarrow>
                     rs = [Some (Awaits 0), Some (Awaits 0), Some (Awaits 1), Some (Awaits 0)] \<and>
                     fetchLog s' = [''x'', ''y'']"
    unfolding r by (simp only: sum.case prod.case)
  have ns: "\<forall>ev\<in>set ?evs. \<not> settles (length (fetchPromises s)) ev" by simp
  from single_flight[OF r, of "''x''" 0 ?evs] f(1,2) ns obtain rs s' where
    rn: "run (Get ''x'' 0 # ?evs) s = Inr (rs, s')"
    and cnt: "count_list (fetchLog s') ''x'' = Suc (count_list (fetchLog s) ''x'')"
    and only: "\<forall>q. pending s' ''x'' q = (q = length (fetchPromises s))"
    and settle: "\<forall>outcome t. \<exists>s''.
                  Cache_settle (length (fetchPromises s)) outcome t s' = Inr s'' \<and>
                  fstate (fetchPromises s'' ! length (fetchPromises s)) = settled outcome \<and>
                  map_of (inFlightRequests s'') ''x'' = None \<and>
                  (\<forall>evs2 rs2 s3. run evs2 s'' = Inr (rs2, s3) \<longrightarrow>
                      fstate (fetchPromises s3 ! length (fetchPromises s)) = settled outcome)"
    by blast
  from e2 have rs: "rs = [Some (Awaits 0), Some (Awaits 0), Some (Awaits 1), Some (Awaits 0)]"
    and fl: "fetchLog s' = [''x'', ''y'']" unfolding rn by simp_all
  from only f(3) have pend: "pending s' ''x'' 0" by simp
  from settle f(3) obtain s'' where
    s'': "Cache_settle 0 (Inl ''boom'') 7 s' = Inr s''"
      "fstate (fetchPromises s'' ! 0) = settled (Inl ''boom'' :: string + nat)"
      "map_of (inFlightRequests s'') ''x'' = None"
    by (metis)
  have la: "list_all (\<lambda>ev. \<not> settles (length (fetchPromises s)) ev) ?evs" by simp
  show ?thesis
    using r f(1,2) la rn rs fl pend s''
    by (intro exI[of _ rs0] exI[of _ s] exI[of _ s'] exI[of _ s''] conjI) simp_all
qed





text \<open>
  Claim C8, as the code has it. A \<^verbatim>\<open>get\<close> of a key whose entry is stale does not
  remove the entry, and handles the request table as a \<^verbatim>\<open>get\<close> of an absent key does
  (it joins the fetch in flight or starts one). Its effect on the store is not the same:
  the lookup through \<^verbatim>\<open>LRUCache.get\<close> moves the stale entry to the most recently used
  position, value and timestamp unchanged, while a \<^verbatim>\<open>get\<close> of an absent key leaves the
  store as it is.
\<close>

theorem stale_get_touches_store:
  assumes reach: "cache_run c d evs0 = Inr (rs0, s)"
    and ent: "stored s k = Some (Obj e)" and stale: "now - timestamp e \<ge> d"
  shows "(\<exists>l. Cache_get k now s = Inr (fst (joinOrFetch k s), (snd (joinOrFetch k s))\<lparr>lruCache := l\<rparr>) \<and>
              entries l = filter (\<lambda>x. fst x \<noteq> k) (entries (lruCache s)) @ [(k, Obj e)] \<and>
              (\<forall>k'. map_of (entries l) k' = stored s k')) \<and>
         (\<forall>k2. stored s k2 = None \<longrightarrow>
              Cache_get k2 now s = Inr (joinOrFetch k2 s) \<and>
              lruCache (snd (joinOrFetch k2 s)) = lruCache s)"
proof (intro conjI allI impI)
  from cache_run_inv[OF reach] have inv: "cache_inv s" and md: "maxDuration s = d" by simp_all
  from touched_ex[OF inv, of k] obtain l where t: "touched s k l" by auto
  from ent stale md have nf: "\<not> is_fresh s k now" by (simp add: is_fresh_def)
  have g: "Cache_get k now s = Inr (fst (joinOrFetch k s), (snd (joinOrFetch k s))\<lparr>lruCache := l\<rparr>)"
    using Cache_get_stale[OF t nf] by (simp add: joinOrFetch_lruCache)
  have e: "entries l = filter (\<lambda>x. fst x \<noteq> k) (entries (lruCache s)) @ [(k, Obj e)]"
    using t ent by (simp add: touched_def)
  have m: "map_of (entries l) k' = stored s k'" for k'
    using touched_stored[OF t, of k'] by (simp add: stored_def)
  from g e m
  show "\<exists>l. Cache_get k now s = Inr (fst (joinOrFetch k s), (snd (joinOrFetch k s))\<lparr>lruCache := l\<rparr>) \<and>
              entries l = filter (\<lambda>x. fst x \<noteq> k) (entries (lruCache s)) @ [(k, Obj e)] \<and>
              (\<forall>k'. map_of (entries l) k' = stored s k')"
    by blast
  fix k2 assume a: "stored s k2 = None"
  show "Cache_get k2 now s = Inr (joinOrFetch k2 s)" using inv a by (rule Cache_get_absent)
  show "lruCache (snd (joinOrFetch k2 s)) = lruCache s"
    by (simp add: joinOrFetch_def Let_def split: option.splits)
qed

text \<open>
  The claim as the specification states it fails. With capacity 2 and TTL 10, after \<open>a\<close>
  and \<open>b\<close> are cached at time 0 the recency order is \<open>a, b\<close>. At time 100 both are
  stale. A \<^verbatim>\<open>get\<close> of the stale \<open>a\<close> changes the order to \<open>b, a\<close>, a \<^verbatim>\<open>get\<close> of
  the absent \<open>z\<close> leaves it \<open>a, b\<close>; and the next insertion then evicts \<open>b\<close> in the
  first case and \<open>a\<close> in the second.
\<close>

theorem stale_get_same_as_absent_counterexample:
  "map_option recency (final_state (cache_run 2 10
      ([Get ''a'' 0, Settle 0 (Inr 1) 0, Get ''b'' 0, Settle 1 (Inr 2) 0] :: (nat, string) event list)))
     = Some [''a'', ''b''] \<and>
   map_option (\<lambda>s. is_fresh s ''a'' 100) (final_state (cache_run 2 10
      ([Get ''a'' 0, Settle 0 (Inr 1) 0, Get ''b'' 0, Settle 1 (Inr 2) 0] :: (nat, string) event list)))
     = Some False \<and>
   map_option recency (final_state (cache_run 2 10
      ([Get ''a'' 0, Settle 0 (Inr 1) 0, Get ''b'' 0, Settle 1 (Inr 2) 0,
        Get ''a'' 100] :: (nat, string) event list)))
     = Some [''b'', ''a''] \<and>
   map_option recency (final_state (cache_run 2 10
      ([Get ''a'' 0, Settle 0 (Inr 1) 0, Get ''b'' 0, Settle 1 (Inr 2) 0,
        Get ''z'' 100] :: (nat, string) event list)))
     = Some [''a'', ''b''] \<and>
   map_option recency (final_state (cache_run 2 10
      ([Get ''a'' 0, Settle 0 (Inr 1) 0, Get ''b'' 0, Settle 1 (Inr 2) 0,
        Get ''a'' 100, Get ''c'' 100, Settle 3 (Inr 3) 100] :: (nat, string) event list)))
     = Some [''a'', ''c''] \<and>
   map_option recency (final_state (cache_run 2 10
      ([Get ''a'' 0, Settle 0 (Inr 1) 0, Get ''b'' 0, Settle 1 (Inr 2) 0,
        Get ''z'' 100, Get ''c'' 100, Settle 3 (Inr 3) 100] :: (nat, string) event list)))
     = Some [''b'', ''c'']"
  by code_simp

theorem stale_get_touches_store_witness:
  "\<exists>rs0 s. cache_run 2 10
        ([Get ''a'' 0, Settle 0 (Inr 1) 0, Get ''b'' 0, Settle 1 (Inr 2) 0] :: (nat, string) event list)
        = Inr (rs0, s) \<and>
      stored s ''a'' = Some (Obj \<lparr> cvalue = 1, timestamp = 0 \<rparr>) \<and>
      (100::int) - 0 \<ge> 10 \<and> stored s ''z'' = None \<and>
      recency s = [''a'', ''b''] \<and>
      (\<exists>r s'. Cache_get ''a'' 100 s = Inr (r, s') \<and> recency s' = [''b'', ''a''] \<and>
              stored s' ''a'' = Some (Obj \<lparr> cvalue = 1, timestamp = 0 \<rparr>)) \<and>
      (\<exists>r s2. Cache_get ''z'' 100 s = Inr (r, s2) \<and> lruCache s2 = lruCache s)"
proof -
  let ?evs = "[Get ''a'' 0, Settle 0 (Inr 1) 0, Get ''b'' 0, Settle 1 (Inr 2) 0] :: (nat, string) event list"
  let ?e = "\<lparr> cvalue = 1 :: nat, timestamp = 0 \<rparr>"
  have ev1: "case cache_run 2 10 ?evs of
              Inl e \<Rightarrow> False
            | Inr (rs0, s) \<Rightarrow>
                stored s ''a'' = Some (Obj ?e) \<and> stored s ''z'' = None \<and>
                entries (lruCache s) = [(''a'', Obj ?e), (''b'', Obj \<lparr> cvalue = 2, timestamp = 0 \<rparr>)]"
    by code_simp
  then obtain rs0 s where r: "cache_run 2 10 ?evs = Inr (rs0, s)"
    and f: "stored s ''a'' = Some (Obj ?e)" "stored s ''z'' = None"
      "entries (lruCache s) = [(''a'', Obj ?e), (''b'', Obj \<lparr> cvalue = 2, timestamp = 0 \<rparr>)]"
    by (cases "cache_run 2 10 ?evs") auto
  have st: "100 - timestamp ?e \<ge> (10::int)" by simp
  from stale_get_touches_store[OF r f(1) st] f(2) obtain l where
    g: "Cache_get ''a'' 100 s = Inr (fst (joinOrFetch ''a'' s), (snd (joinOrFetch ''a'' s))\<lparr>lruCache := l\<rparr>)"
    and e: "entries l = filter (\<lambda>x. fst x \<noteq> ''a'') (entries (lruCache s)) @ [(''a'', Obj ?e)]"
    and m: "\<forall>k'. map_of (entries l) k' = stored s k'"
    and z: "Cache_get ''z'' 100 s = Inr (joinOrFetch ''z'' s)"
      "lruCache (snd (joinOrFetch ''z'' s)) = lruCache s"
    by blast
  let ?s' = "(snd (joinOrFetch ''a'' s))\<lparr>lruCache := l\<rparr>"
  have rec': "recency ?s' = [''b'', ''a'']" using e f(3) by (simp add: recency_def)
  have st': "stored ?s' ''a'' = Some (Obj ?e)" using m f(1) by (simp add: stored_def)
  have rec: "recency s = [''a'', ''b'']" using f(3) by (simp add: recency_def)
  from z have z': "Cache_get ''z'' 100 s = Inr (fst (joinOrFetch ''z'' s), snd (joinOrFetch ''z'' s))"
    by simp
  show ?thesis
    using r f(1,2) rec g rec' st' z' z(2)
    by (intro exI[of _ rs0] exI[of _ s] conjI exI[of _ "fst (joinOrFetch ''a'' s)"] exI[of _ ?s']
        exI[of _ "fst (joinOrFetch ''z'' s)"] exI[of _ "snd (joinOrFetch ''z'' s)"]) simp_all
qed

end
